theory Spec2Isabelle
  imports Complex_Main "HOL-Library.Product_Lexorder" "HOL-Library.Log_Nat"
begin

section \<open>Data model\<close>

text \<open>
  A label image is a dense array of non-negative integers, given here as the list of its
  rows; 0 is background. The evaluator only ever reads an image through \<open>flatten()\<close>,
  \<open>np.unique\<close> and \<open>np.max\<close>, which all see the row-major sequence of pixels
  (\<open>concat\<close>). Python exceptions are values of the type \<open>error\<close>; a computation that may
  raise returns \<open>error + 'a\<close>.

  Floating-point numbers are the rationals they denote. The IoU table is a \<open>float32\<close>
  array: each quotient is rounded to double precision by the division and to single
  precision when it is stored, and the comparisons of the table with the threshold are
  single-precision comparisons, for which the threshold is rounded to single precision.
  The threshold argument is the rational a Python float denotes.
\<close>

datatype error = ValueError | ZeroDivisionError | AssertionError | KeyError | IndexError

type_synonym label_image = "nat list list"

definition bind_e :: "error + 'a \<Rightarrow> ('a \<Rightarrow> error + 'b) \<Rightarrow> error + 'b" where
  "bind_e m f = (case m of Inl e \<Rightarrow> Inl e | Inr x \<Rightarrow> f x)"

section \<open>Library functions used by the evaluator\<close>

text \<open>
  \<open>np.unique(xs)\<close> returns the sorted distinct values; with \<open>return_counts=True\<close> also
  how often each occurs. With \<open>axis=1\<close> on the two-row overlay array the values are its
  columns, here pairs (predicted label, ground-truth label) in lexicographic order.
\<close>

definition np_unique :: "'a::linorder list \<Rightarrow> 'a list" where
  "np_unique xs = sort (remdups xs)"

definition np_unique_counts :: "'a::linorder list \<Rightarrow> ('a \<times> nat) list" where
  "np_unique_counts xs = map (\<lambda>v. (v, count_list xs v)) (np_unique xs)"

text \<open>\<open>np.max\<close> raises ValueError on an array without elements.\<close>

fun np_max :: "'a::linorder list \<Rightarrow> error + 'a" where
  "np_max [] = Inl ValueError"
| "np_max (x # xs) = Inr (fold max xs x)"

text \<open>
  \<open>skimage.segmentation.relabel_sequential\<close> (offset 1): the sorted distinct non-zero
  labels are renumbered 1, 2, ..., and 0 stays 0. It starts with \<open>np.min\<close> of the image,
  which raises ValueError on an image without pixels.
\<close>

fun index_of :: "'a list \<Rightarrow> 'a \<Rightarrow> nat" where
  "index_of [] v = 0"
| "index_of (x # xs) v = (if x = v then 0 else Suc (index_of xs v))"

definition instance_labels :: "nat list \<Rightarrow> nat list" where
  "instance_labels xs = filter (\<lambda>v. v \<noteq> 0) (np_unique xs)"

definition relabel_value :: "nat list \<Rightarrow> nat \<Rightarrow> nat" where
  "relabel_value labels v = (if v = 0 then 0 else Suc (index_of labels v))"

definition relabel_sequential :: "label_image \<Rightarrow> error + label_image" where
  "relabel_sequential img =
     (if concat img = [] then Inl ValueError
      else Inr (map (map (relabel_value (instance_labels (concat img)))) img))"

text \<open>
  \<open>np.array([a, b])\<close> of two flattened images is a two-row array when they have the same
  number of pixels, and raises ValueError (inhomogeneous shape) otherwise. The columns of
  the result are the pairs of corresponding pixels.
\<close>

definition np_stack2 :: "'a list \<Rightarrow> 'a list \<Rightarrow> error + ('a \<times> 'a) list" where
  "np_stack2 us vs = (if length us = length vs then Inr (zip us vs) else Inl ValueError)"

section \<open>The assignment solver\<close>

text \<open>
  \<open>scipy.optimize.linear_sum_assignment\<close> takes a cost matrix with n rows and m columns
  and returns row indices and column indices of an assignment of \<open>min n m\<close> pairs, no row
  and no column used twice, of minimum total cost. An assignment is the pair of the two
  index lists; \<open>lsa_contract\<close> is this contract for a solver.
\<close>

type_synonym assignment = "nat list \<times> nat list"

definition is_matrix :: "nat \<Rightarrow> nat \<Rightarrow> 'a list list \<Rightarrow> bool" where
  "is_matrix n m C \<longleftrightarrow> length C = n \<and> (\<forall>row \<in> set C. length row = m)"

definition assignment_cost :: "rat list list \<Rightarrow> assignment \<Rightarrow> rat" where
  "assignment_cost C a = sum_list (map (\<lambda>(r, c). C ! r ! c) (zip (fst a) (snd a)))"

definition valid_assignment :: "nat \<Rightarrow> nat \<Rightarrow> assignment \<Rightarrow> bool" where
  "valid_assignment n m a \<longleftrightarrow>
     length (fst a) = min n m \<and> length (snd a) = min n m \<and>
     distinct (fst a) \<and> distinct (snd a) \<and>
     (\<forall>r \<in> set (fst a). r < n) \<and> (\<forall>c \<in> set (snd a). c < m)"

definition lsa_contract :: "(rat list list \<Rightarrow> assignment) \<Rightarrow> bool" where
  "lsa_contract solver \<longleftrightarrow>
     (\<forall>C n m. 0 < n \<and> 0 < m \<and> is_matrix n m C \<longrightarrow>
        valid_assignment n m (solver C) \<and>
        (\<forall>a. valid_assignment n m a \<longrightarrow> assignment_cost C (solver C) \<le> assignment_cost C a))"

text \<open>
  A reference solver that meets the contract by exhaustive search: it lists every valid
  assignment of the matrix and returns one of minimum cost.
\<close>

definition all_assignments :: "nat \<Rightarrow> nat \<Rightarrow> assignment list" where
  "all_assignments n m =
     filter (valid_assignment n m)
       (List.product (List.n_lists (min n m) [0..<n]) (List.n_lists (min n m) [0..<m]))"

definition linear_sum_assignment :: "rat list list \<Rightarrow> assignment" where
  "linear_sum_assignment C =
     arg_min_list (assignment_cost C) (all_assignments (length C) (length (hd C)))"

section \<open>Floating point\<close>

text \<open>
  IEEE 754 rounding to nearest, ties to even, with a significand of p bits: a non-zero x
  with \<open>2 ^ e \<le> \<bar>x\<bar> < 2 ^ (e + 1)\<close> is rounded to the nearest multiple of
  \<open>2 ^ (e - p + 1)\<close>. \<open>float32\<close> has 24 bits and \<open>float64\<close> has 53. The exponent range
  is not limited: an IoU that is not 0 is at least 1 over twice the number of pixels, far
  above the smallest normal single-precision number for any array that fits in memory.
\<close>

definition round_half_even :: "rat \<Rightarrow> int" where
  "round_half_even m =
     (let f = \<lfloor>m\<rfloor>; r = m - of_int f
      in if r < 1/2 then f else if 1/2 < r then f + 1 else if even f then f else f + 1)"

definition floor_log2 :: "rat \<Rightarrow> int" where
  "floor_log2 x =
     (case quotient_of x of (a, b) \<Rightarrow>
        let e = bitlen a - bitlen b in if 2 powi e \<le> x then e else e - 1)"

definition float_round :: "nat \<Rightarrow> rat \<Rightarrow> rat" where
  "float_round p x =
     (if x = 0 then 0
      else let e = floor_log2 \<bar>x\<bar>; u = 2 powi (e - int p + 1)
           in sgn x * of_int (round_half_even (\<bar>x\<bar> / u)) * u)"

definition float32 :: "rat \<Rightarrow> rat" where
  "float32 = float_round 24"

definition float64 :: "rat \<Rightarrow> rat" where
  "float64 = float_round 53"

section \<open>evaluate\<close>

text \<open>
  The loop that fills the IoU table. Each entry of the overlap list is a pair (u, v) of a
  predicted and a ground-truth label with the number c of pixels carrying both; the loop
  looks the sizes of v and u up in the two dictionaries (KeyError when absent), divides
  \<open>c / (g + p - c)\<close> in double precision and stores the quotient in the \<open>float32\<close>
  table at row v, column u (IndexError when out of range).
\<close>

fun fill_iou :: "((nat \<times> nat) \<times> nat) list \<Rightarrow> (nat \<rightharpoonup> nat) \<Rightarrow> (nat \<rightharpoonup> nat) \<Rightarrow>
    rat list list \<Rightarrow> error + rat list list" where
  "fill_iou [] gd pd M = Inr M"
| "fill_iou (((u, v), c) # rest) gd pd M =
     (case gd v of None \<Rightarrow> Inl KeyError | Some g \<Rightarrow>
      (case pd u of None \<Rightarrow> Inl KeyError | Some p \<Rightarrow>
        if v < length M \<and> u < length (M ! v)
        then fill_iou rest gd pd
               (M[v := (M ! v)[u := float32 (float64 (of_nat c / (of_nat g + of_nat p - of_nat c)))]])
        else Inl IndexError))"

text \<open>
  Lines 318 to 355 of \<open>evaluate\<close>: the number of ground-truth instances, the number of
  predicted instances, and the IoU table without its background row and column.
\<close>

definition iou_table :: "label_image \<Rightarrow> label_image \<Rightarrow> error + (nat \<times> nat \<times> rat list list)" where
  "iou_table gt_labels pred_labels =
     bind_e (relabel_sequential pred_labels) (\<lambda>pred_labels_rel.
     bind_e (relabel_sequential gt_labels) (\<lambda>gt_labels_rel.
     bind_e (np_stack2 (concat pred_labels_rel) (concat gt_labels_rel)) (\<lambda>overlay.
     bind_e (np_max (concat pred_labels_rel)) (\<lambda>num_pred_labels.
     bind_e (np_max (concat gt_labels_rel)) (\<lambda>num_gt_labels.
     bind_e (fill_iou (np_unique_counts overlay)
                (map_of (np_unique_counts (concat gt_labels_rel)))
                (map_of (np_unique_counts (concat pred_labels_rel)))
                (replicate (Suc num_gt_labels) (replicate (Suc num_pred_labels) 0)))
       (\<lambda>iouMat. Inr (num_gt_labels, num_pred_labels, map tl (tl iouMat))))))))"

text \<open>
  Line 359. The indicator compares the \<open>float32\<close> table with the threshold in single
  precision. The tie-break quotient and the difference are exact here, as are the sums
  in the solver's contract; in the code each is rounded, with a relative error below one
  part in \<open>2 ^ 22\<close>. The number of true positives does not depend on that rounding
  (\<open>banded_cost_true_positives\<close>): assignments with different numbers of qualifying
  pairs differ in cost by at least 1/2.
\<close>

definition cost_matrix :: "rat list list \<Rightarrow> rat \<Rightarrow> nat \<Rightarrow> rat list list" where
  "cost_matrix iouMat th num_matches =
     map (map (\<lambda>x. - (if x > float32 th then 1 else 0) - x / of_nat (2 * num_matches))) iouMat"

text \<open>
  Lines 358 to 365: the number of true positives. \<open>num_matches > 0\<close> is tested first, so
  \<open>np.max\<close> never sees a table without entries. The maximum and the entries of the
  table are \<open>float32\<close> values and are compared with the threshold in single precision
  (numpy 2; see \<open>branch_in_double_precision\<close> for the older promotion rule at line 358).
  The indices the solver returns are used to index the table (IndexError when out of
  range).
\<close>

definition count_tp :: "(rat list list \<Rightarrow> assignment) \<Rightarrow> nat \<Rightarrow> nat \<Rightarrow> rat list list \<Rightarrow> rat \<Rightarrow>
    error + nat" where
  "count_tp solver num_gt_labels num_pred_labels iouMat th =
     (let num_matches = min num_gt_labels num_pred_labels in
      if num_matches > 0 then
        bind_e (np_max (concat iouMat)) (\<lambda>mx.
          if mx > float32 th then
            (case solver (cost_matrix iouMat th num_matches) of (gt_ind, pred_ind) \<Rightarrow>
               if num_matches = length gt_ind \<and> length gt_ind = length pred_ind then
                 if list_all (\<lambda>(g, p). g < length iouMat \<and> p < length (iouMat ! g))
                      (zip gt_ind pred_ind)
                 then Inr (length (filter (\<lambda>(g, p). iouMat ! g ! p > float32 th)
                                     (zip gt_ind pred_ind)))
                 else Inl IndexError
               else Inl AssertionError)
          else Inr 0)
      else Inr 0)"

text \<open>
  Lines 366 and 367: the counts (tp, fp, fn), in Python's unbounded integers.
\<close>

definition evaluate_counts :: "(rat list list \<Rightarrow> assignment) \<Rightarrow> label_image \<Rightarrow> label_image \<Rightarrow> rat \<Rightarrow>
    error + (int \<times> int \<times> int)" where
  "evaluate_counts solver gt_labels pred_labels th =
     bind_e (iou_table gt_labels pred_labels) (\<lambda>(num_gt_labels, num_pred_labels, iouMat).
     bind_e (count_tp solver num_gt_labels num_pred_labels iouMat th) (\<lambda>tp.
       Inr (int tp, int num_pred_labels - int tp, int num_gt_labels - int tp)))"

text \<open>
  Lines 368 to 372. The three quotients are divisions of Python integers, which give the
  exact quotient rounded to double precision: the first two have a denominator of at least
  1, the third raises ZeroDivisionError when it is 0.
\<close>

definition precision_of :: "int \<Rightarrow> int \<Rightarrow> rat" where
  "precision_of tp fp = float64 (of_int tp / of_int (max 1 (tp + fp)))"

definition recall_of :: "int \<Rightarrow> int \<Rightarrow> rat" where
  "recall_of tp fn = float64 (of_int tp / of_int (max 1 (tp + fn)))"

definition accuracy_of :: "int \<Rightarrow> int \<Rightarrow> int \<Rightarrow> error + rat" where
  "accuracy_of tp fp fn =
     (if tp + fp + fn = 0 then Inl ZeroDivisionError
      else Inr (float64 (of_int tp / of_int (tp + fp + fn))))"

definition evaluate_with :: "(rat list list \<Rightarrow> assignment) \<Rightarrow> label_image \<Rightarrow> label_image \<Rightarrow> rat \<Rightarrow>
    error + (rat \<times> rat \<times> rat)" where
  "evaluate_with solver gt_labels pred_labels th =
     bind_e (evaluate_counts solver gt_labels pred_labels th) (\<lambda>(tp, fp, fn).
     bind_e (accuracy_of tp fp fn) (\<lambda>accuracy.
       Inr (precision_of tp fp, recall_of tp fn, accuracy)))"

definition evaluate :: "label_image \<Rightarrow> label_image \<Rightarrow> rat \<Rightarrow> error + (rat \<times> rat \<times> rat)" where
  "evaluate = evaluate_with linear_sum_assignment"

section \<open>Matchings\<close>

text \<open>
  A one-to-one matching between ground-truth and predicted instances is a set of pairs in
  which no first component and no second component occurs twice. A number is the maximum
  cardinality of a matching inside a set of admissible pairs when some matching inside the
  set has that many pairs and none has more. The admissible pairs of an IoU table are the
  positions whose entry strictly exceeds the threshold.
\<close>

definition is_matching :: "('a \<times> 'b) set \<Rightarrow> bool" where
  "is_matching P \<longleftrightarrow> inj_on fst P \<and> inj_on snd P"

definition is_max_matching_size :: "('a \<times> 'b) set \<Rightarrow> nat \<Rightarrow> bool" where
  "is_max_matching_size E k \<longleftrightarrow>
     (\<exists>P. P \<subseteq> E \<and> is_matching P \<and> card P = k) \<and>
     (\<forall>P. P \<subseteq> E \<and> is_matching P \<longrightarrow> card P \<le> k)"

definition qualifying_pairs :: "rat list list \<Rightarrow> rat \<Rightarrow> (nat \<times> nat) set" where
  "qualifying_pairs iouMat th =
     {(g, p). g < length iouMat \<and> p < length (iouMat ! g) \<and> iouMat ! g ! p > th}"

text \<open>
  For an assignment: the number of its pairs whose IoU strictly exceeds the threshold (the
  value that line 363 counts), and the sum of the IoU values of its pairs. A table has
  unit entries when every entry lies between 0 and 1.
\<close>

definition above_threshold :: "rat list list \<Rightarrow> rat \<Rightarrow> assignment \<Rightarrow> nat" where
  "above_threshold iouMat th a =
     length (filter (\<lambda>(g, p). iouMat ! g ! p > th) (zip (fst a) (snd a)))"

definition iou_sum :: "rat list list \<Rightarrow> assignment \<Rightarrow> rat" where
  "iou_sum M a = sum_list (map (\<lambda>(g, p). M ! g ! p) (zip (fst a) (snd a)))"

definition unit_entries :: "rat list list \<Rightarrow> bool" where
  "unit_entries M \<longleftrightarrow> (\<forall>row \<in> set M. \<forall>x \<in> set row. 0 \<le> x \<and> x \<le> 1)"

text \<open>
  Intersection over union of the ground-truth instance a and the predicted instance b in
  the original (not relabelled) pixel sequences xs and ys, as the table stores it, and
  the pairs of original non-zero labels whose stored IoU strictly exceeds a bound.
\<close>

definition iou_of :: "nat list \<Rightarrow> nat list \<Rightarrow> nat \<Rightarrow> nat \<Rightarrow> rat" where
  "iou_of xs ys a b =
     float32 (float64 (of_nat (count_list (zip ys xs) (b, a)) /
       (of_nat (count_list xs a) + of_nat (count_list ys b) -
        of_nat (count_list (zip ys xs) (b, a)))))"

definition label_pairs :: "nat list \<Rightarrow> nat list \<Rightarrow> rat \<Rightarrow> (nat \<times> nat) set" where
  "label_pairs xs ys th =
     {(a, b). a \<in> set xs \<and> a \<noteq> 0 \<and> b \<in> set ys \<and> b \<noteq> 0 \<and> iou_of xs ys a b > th}"

section \<open>compute_affinities\<close>

text \<open>
  The shape of a two-dimensional array given as the list of its rows (all of one length).
\<close>

definition np_shape :: "'a list list \<Rightarrow> nat \<times> nat" where
  "np_shape img = (length img, case img of [] \<Rightarrow> 0 | row # _ \<Rightarrow> length row)"

text \<open>
  A slice \<open>a[lo:hi]\<close> of an axis of length n selects the indices
  from lo up to hi, after Python has normalised each bound: a negative bound counts from
  the end (n is added, and the result is cut off at 0), any other bound is cut off at n.
\<close>

definition py_slice_bound :: "nat \<Rightarrow> int \<Rightarrow> nat" where
  "py_slice_bound n i = (if i < 0 then nat (max 0 (i + int n)) else min (nat i) n)"

definition py_slice :: "nat \<Rightarrow> int \<Rightarrow> int \<Rightarrow> nat list" where
  "py_slice n lo hi = [py_slice_bound n lo ..< py_slice_bound n hi]"

text \<open>
  Two axis lengths broadcast when they are equal or one of them is 1; otherwise numpy
  raises ValueError. In a broadcast operand an axis of length 1 is read at its only index.
\<close>

definition np_broadcast :: "nat \<Rightarrow> nat \<Rightarrow> error + nat" where
  "np_broadcast a b =
     (if a = b then Inr a else if a = 1 then Inr b else if b = 1 then Inr a else Inl ValueError)"

definition bc_index :: "nat list \<Rightarrow> nat \<Rightarrow> nat" where
  "bc_index sl k = (if length sl = 1 then sl ! 0 else sl ! k)"

text \<open>
  One pass of the loop over the offsets (lines 281 to 310): the plane of zeros with the
  block at rows rA, columns cA overwritten by the product of the three comparisons of
  \<open>seg[rA, cA]\<close> with \<open>seg[rB, cB]\<close>. The comparisons broadcast the two blocks, and the
  assignment needs every axis of the value to have the length of the target's axis or
  length 1; either step raises ValueError otherwise.
\<close>

definition affinity_plane :: "label_image \<Rightarrow> int \<times> int \<Rightarrow> error + nat list list" where
  "affinity_plane seg off =
     (let H = fst (np_shape seg); W = snd (np_shape seg);
          rA = py_slice H (max 0 (- fst off)) (min (int H) (int H - fst off));
          cA = py_slice W (max 0 (- snd off)) (min (int W) (int W - snd off));
          rB = py_slice H (max 0 (fst off)) (min (int H) (int H + fst off));
          cB = py_slice W (max 0 (snd off)) (min (int W) (int W + snd off))
      in bind_e (np_broadcast (length rA) (length rB)) (\<lambda>r.
         bind_e (np_broadcast (length cA) (length cB)) (\<lambda>c.
           if (r = length rA \<or> r = 1) \<and> (c = length cA \<or> c = 1)
           then Inr (map (\<lambda>y. map (\<lambda>x.
                  if y \<in> set rA \<and> x \<in> set cA
                  then (let i = (if r = 1 then 0 else y - hd rA);
                            j = (if c = 1 then 0 else x - hd cA);
                            a = seg ! bc_index rA i ! bc_index cA j;
                            b = seg ! bc_index rB i ! bc_index cB j
                        in if a = b \<and> a > 0 \<and> b > 0 then 1 else 0)
                  else 0) [0..<W]) [0..<H])
           else Inl ValueError)))"

text \<open>
  The whole function: \<open>np.array(nhood)\<close> of an empty list has shape (0,), so reading
  \<open>nhood.shape[1]\<close> raises IndexError; otherwise the planes are computed in order and the
  first error aborts.
\<close>

fun map_e :: "('a \<Rightarrow> error + 'b) \<Rightarrow> 'a list \<Rightarrow> error + 'b list" where
  "map_e f [] = Inr []"
| "map_e f (x # xs) = bind_e (f x) (\<lambda>y. bind_e (map_e f xs) (\<lambda>ys. Inr (y # ys)))"

definition compute_affinities :: "label_image \<Rightarrow> (int \<times> int) list \<Rightarrow> error + nat list list list" where
  "compute_affinities seg nhood =
     (if nhood = [] then Inl IndexError else map_e (affinity_plane seg) nhood)"

text \<open>
  The affinity of the specification: 1 at pixel (y, x) for an offset when the partner
  pixel lies within the image, both carry the same label, and the label is not background.
\<close>

definition affinity_spec :: "label_image \<Rightarrow> int \<times> int \<Rightarrow> nat \<Rightarrow> nat \<Rightarrow> nat" where
  "affinity_spec seg off y x =
     (if 0 \<le> int y + fst off \<and> int y + fst off < int (fst (np_shape seg)) \<and>
         0 \<le> int x + snd off \<and> int x + snd off < int (snd (np_shape seg)) \<and>
         seg ! y ! x = seg ! nat (int y + fst off) ! nat (int x + snd off) \<and> seg ! y ! x > 0
      then 1 else 0)"

section \<open>Properties of the rounding\<close>

lemma round_half_even_bounds:
  "of_int \<lfloor>m\<rfloor> \<le> (of_int (round_half_even m) :: rat)" "round_half_even m \<le> \<lfloor>m\<rfloor> + 1"
  by (auto simp: round_half_even_def Let_def)

lemma round_half_even_of_int: "round_half_even (of_int k) = k"
  by (simp add: round_half_even_def)

lemma round_half_even_mono:
  assumes "m \<le> m'"
  shows "round_half_even m \<le> round_half_even m'"
proof (cases "\<lfloor>m\<rfloor> < \<lfloor>m'\<rfloor>")
  case True
  have "round_half_even m \<le> \<lfloor>m\<rfloor> + 1" by (rule round_half_even_bounds)
  also have "\<dots> \<le> \<lfloor>m'\<rfloor>" using True by simp
  also have "\<dots> \<le> round_half_even m'"
    using round_half_even_bounds(1)[of m'] by simp
  finally show ?thesis .
next
  case False
  moreover have "\<lfloor>m\<rfloor> \<le> \<lfloor>m'\<rfloor>" using assms by (rule floor_mono)
  ultimately have eq: "\<lfloor>m'\<rfloor> = \<lfloor>m\<rfloor>" by simp
  have "m - of_int \<lfloor>m\<rfloor> \<le> m' - of_int \<lfloor>m\<rfloor>" using assms by simp
  then show ?thesis
    unfolding round_half_even_def Let_def eq by (auto split: if_splits)
qed

lemma floor_log2_bounds:
  assumes "0 < x"
  shows "2 powi floor_log2 x \<le> x" "x < 2 powi (floor_log2 x + 1)"
proof -
  obtain a b where q: "quotient_of x = (a, b)" by (cases "quotient_of x")
  then have b: "0 < b" and x: "x = of_int a / of_int b"
    using quotient_of_denom_pos quotient_of_div by blast+
  have a: "0 < a" using assms b x by (simp add: zero_less_divide_iff)
  define la lb where "la = bitlen a" and "lb = bitlen b"
  have la: "1 \<le> la" "2 ^ nat (la - 1) \<le> a" "a < 2 ^ nat la"
    using bitlen_bounds[OF a] a by (auto simp: la_def bitlen_alt_def)
  have lb: "1 \<le> lb" "2 ^ nat (lb - 1) \<le> b" "b < 2 ^ nat lb"
    using bitlen_bounds[OF b] b by (auto simp: lb_def bitlen_alt_def)
  have pa: "(2::rat) powi (la - 1) \<le> of_int a" "(of_int a :: rat) < 2 powi la"
  proof -
    have "(of_int (2 ^ nat (la - 1)) :: rat) \<le> of_int a" using la(2) by (simp only: of_int_le_iff)
    then show "(2::rat) powi (la - 1) \<le> of_int a" using la(1) by (simp add: power_int_def)
    have "(of_int a :: rat) < of_int (2 ^ nat la)" using la(3) by (simp only: of_int_less_iff)
    then show "(of_int a :: rat) < 2 powi la" using la(1) by (simp add: power_int_def)
  qed
  have pb: "(2::rat) powi (lb - 1) \<le> of_int b" "(of_int b :: rat) < 2 powi lb"
  proof -
    have "(of_int (2 ^ nat (lb - 1)) :: rat) \<le> of_int b" using lb(2) by (simp only: of_int_le_iff)
    then show "(2::rat) powi (lb - 1) \<le> of_int b" using lb(1) by (simp add: power_int_def)
    have "(of_int b :: rat) < of_int (2 ^ nat lb)" using lb(3) by (simp only: of_int_less_iff)
    then show "(of_int b :: rat) < 2 powi lb" using lb(1) by (simp add: power_int_def)
  qed
  have bpos: "(0::rat) < of_int b" using b by simp
  have upper: "x < 2 powi (la - lb + 1)"
  proof -
    have "of_int a < (2::rat) powi la" by (rule pa(2))
    also have "\<dots> = 2 powi (la - lb + 1) * 2 powi (lb - 1)"
      by (simp flip: power_int_add)
    also have "\<dots> \<le> 2 powi (la - lb + 1) * of_int b"
      using pb(1) by (intro mult_left_mono) simp_all
    finally show ?thesis unfolding x using bpos by (simp add: divide_less_eq)
  qed
  have lower: "2 powi (la - lb - 1) < x"
  proof -
    have "2 powi (la - lb - 1) * of_int b < (2::rat) powi (la - lb - 1) * 2 powi lb"
      using pb(2) by (intro mult_strict_left_mono) simp_all
    also have "\<dots> = 2 powi (la - 1)" by (simp flip: power_int_add)
    also have "\<dots> \<le> of_int a" by (rule pa(1))
    finally show ?thesis unfolding x using bpos by (simp add: less_divide_eq)
  qed
  have e: "floor_log2 x = (if 2 powi (la - lb) \<le> x then la - lb else la - lb - 1)"
    by (simp add: floor_log2_def q la_def lb_def Let_def)
  show "2 powi floor_log2 x \<le> x" using lower unfolding e by auto
  show "x < 2 powi (floor_log2 x + 1)" using upper unfolding e by (auto simp: not_le)
qed

lemma floor_log2_mono:
  assumes "0 < x" "x \<le> y"
  shows "floor_log2 x \<le> floor_log2 y"
proof (rule ccontr)
  assume "\<not> floor_log2 x \<le> floor_log2 y"
  then have "floor_log2 y + 1 \<le> floor_log2 x" by simp
  then have "(2::rat) powi (floor_log2 y + 1) \<le> 2 powi floor_log2 x"
    by (intro power_int_increasing) simp_all
  moreover have "y < 2 powi (floor_log2 y + 1)" using floor_log2_bounds(2)[of y] assms by simp
  moreover have "2 powi floor_log2 x \<le> x" using floor_log2_bounds(1)[OF assms(1)] .
  ultimately show False using assms(2) by linarith
qed

lemma float_round_zero: "float_round p 0 = 0"
  by (simp add: float_round_def)

lemma float_round_minus: "float_round p (- x) = - float_round p x"
  by (simp add: float_round_def Let_def sgn_minus)

lemma float_round_pos_def:
  "0 < x \<Longrightarrow> float_round p x =
     of_int (round_half_even (x / 2 powi (floor_log2 x - int p + 1))) * 2 powi (floor_log2 x - int p + 1)"
  by (simp add: float_round_def Let_def)

lemma float_round_binade:
  assumes "0 < x" "1 \<le> p"
  shows "2 powi floor_log2 x \<le> float_round p x" "float_round p x \<le> 2 powi (floor_log2 x + 1)"
proof -
  define e where "e = floor_log2 x"
  define u :: rat where "u = 2 powi (e - int p + 1)"
  have u: "0 < u" by (simp add: u_def)
  have lo: "2 powi e = of_int (2 ^ (p - 1)) * u"
  proof -
    have "int (p - 1) + (e - int p + 1) = e" using assms(2) by simp
    then have "(2::rat) powi e = 2 powi (int (p - 1)) * 2 powi (e - int p + 1)"
      using power_int_add[of "2::rat" "int (p - 1)" "e - int p + 1"] by simp
    then show ?thesis by (simp add: u_def)
  qed
  have hi: "2 powi (e + 1) = of_int (2 ^ p) * u"
  proof -
    have "int p + (e - int p + 1) = e + 1" by simp
    then have "(2::rat) powi (e + 1) = 2 powi (int p) * 2 powi (e - int p + 1)"
      using power_int_add[of "2::rat" "int p" "e - int p + 1"] by simp
    then show ?thesis by (simp add: u_def)
  qed
  have b: "2 powi e \<le> x" "x < 2 powi (e + 1)" using floor_log2_bounds[OF assms(1)] by (simp_all add: e_def)
  have "of_int (2 ^ (p - 1)) \<le> x / u" using b(1) u unfolding lo by (simp add: le_divide_eq)
  then have "round_half_even (of_int (2 ^ (p - 1))) \<le> round_half_even (x / u)"
    by (rule round_half_even_mono)
  then have k1: "2 ^ (p - 1) \<le> round_half_even (x / u)" by (simp only: round_half_even_of_int)
  have "x / u \<le> of_int (2 ^ p)" using b(2) u unfolding hi by (simp add: divide_le_eq)
  then have "round_half_even (x / u) \<le> round_half_even (of_int (2 ^ p))"
    by (rule round_half_even_mono)
  then have k2: "round_half_even (x / u) \<le> 2 ^ p" by (simp only: round_half_even_of_int)
  have f: "float_round p x = of_int (round_half_even (x / u)) * u"
    using float_round_pos_def[OF assms(1)] by (simp add: u_def e_def)
  have "(of_int (2 ^ (p - 1)) :: rat) \<le> of_int (round_half_even (x / u))"
    using k1 by (simp only: of_int_le_iff)
  then show "2 powi floor_log2 x \<le> float_round p x"
    unfolding f e_def[symmetric] lo using u by (intro mult_right_mono) simp_all
  have "(of_int (round_half_even (x / u)) :: rat) \<le> of_int (2 ^ p)"
    using k2 by (simp only: of_int_le_iff)
  then show "float_round p x \<le> 2 powi (floor_log2 x + 1)"
    unfolding f e_def[symmetric] hi using u by (intro mult_right_mono) simp_all
qed

lemma float_round_pos: "0 < x \<Longrightarrow> 1 \<le> p \<Longrightarrow> 0 < float_round p x"
  using float_round_binade(1)[of x p] zero_less_power_int[of "2::rat" "floor_log2 x"]
  by linarith

lemma float_round_mono_pos:
  assumes "0 < x" "x \<le> y" "1 \<le> p"
  shows "float_round p x \<le> float_round p y"
proof (cases "floor_log2 x = floor_log2 y")
  case True
  have y: "0 < y" using assms by simp
  define u :: rat where "u = 2 powi (floor_log2 y - int p + 1)"
  have u: "0 < u" by (simp add: u_def)
  have "x / u \<le> y / u" using assms(2) u by (simp add: divide_right_mono)
  then have "round_half_even (x / u) \<le> round_half_even (y / u)" by (rule round_half_even_mono)
  then have "(of_int (round_half_even (x / u)) :: rat) \<le> of_int (round_half_even (y / u))"
    by (simp only: of_int_le_iff)
  then have "of_int (round_half_even (x / u)) * u \<le> of_int (round_half_even (y / u)) * u"
    using u by (intro mult_right_mono) simp_all
  then show ?thesis
    unfolding float_round_pos_def[OF assms(1)] float_round_pos_def[OF y] True u_def .
next
  case False
  have y: "0 < y" using assms by simp
  have "floor_log2 x \<le> floor_log2 y" using floor_log2_mono[OF assms(1,2)] .
  with False have "floor_log2 x + 1 \<le> floor_log2 y" by simp
  then have "(2::rat) powi (floor_log2 x + 1) \<le> 2 powi floor_log2 y"
    by (intro power_int_increasing) simp_all
  with float_round_binade(2)[OF assms(1,3)] float_round_binade(1)[OF y assms(3)]
  show ?thesis by linarith
qed

lemma float_round_mono:
  assumes "x \<le> y" "1 \<le> p"
  shows "float_round p x \<le> float_round p y"
proof -
  consider "0 < x" | "x = 0" "0 < y" | "x = 0" "y = 0" | "x < 0" "0 < y" | "x < 0" "y = 0" | "y < 0"
    using assms(1) by linarith
  then show ?thesis
  proof cases
    case 1
    then show ?thesis using float_round_mono_pos assms by blast
  next
    case 2
    then show ?thesis using float_round_pos[OF _ assms(2), of y] by (simp add: float_round_zero)
  next
    case 3
    then show ?thesis by simp
  next
    case 4
    have "0 < float_round p (- x)" "0 < float_round p y"
      using 4 float_round_pos assms(2) by simp_all
    then show ?thesis by (simp add: float_round_minus)
  next
    case 5
    have "0 < float_round p (- x)" using 5 float_round_pos assms(2) by simp
    then show ?thesis using 5 by (simp add: float_round_minus float_round_zero)
  next
    case 6
    have "float_round p (- y) \<le> float_round p (- x)"
      using 6 assms by (intro float_round_mono_pos) simp_all
    then show ?thesis by (simp add: float_round_minus)
  qed
qed

lemma float32_mono: "x \<le> y \<Longrightarrow> float32 x \<le> float32 y"
  by (simp add: float32_def float_round_mono)

lemma float64_mono: "x \<le> y \<Longrightarrow> float64 x \<le> float64 y"
  by (simp add: float64_def float_round_mono)

lemma float32_zero: "float32 0 = 0" and float64_zero: "float64 0 = 0"
  by (simp_all add: float32_def float64_def float_round_zero)

lemma float32_one: "float32 1 = 1"
  by code_simp

lemma float64_one: "float64 1 = 1"
  by code_simp

lemma float32_half: "float32 (1/2) = 1/2"
  by code_simp

lemma stored_iou_unit:
  assumes "0 \<le> q" "q \<le> 1"
  shows "0 \<le> float32 (float64 q)" "float32 (float64 q) \<le> 1"
proof -
  have "float64 0 \<le> float64 q" "float64 q \<le> float64 1" using assms by (simp_all add: float64_mono)
  then have "float32 (float64 0) \<le> float32 (float64 q)" "float32 (float64 q) \<le> float32 (float64 1)"
    by (simp_all add: float32_mono)
  then show "0 \<le> float32 (float64 q)" "float32 (float64 q) \<le> 1"
    by (simp_all add: float32_zero float64_zero float32_one float64_one)
qed

lemma floor_log2_unique:
  assumes "0 < y" "2 powi e \<le> y" "y < 2 powi (e + 1)"
  shows "floor_log2 y = e"
proof (rule antisym)
  show "floor_log2 y \<le> e"
  proof (rule ccontr)
    assume "\<not> floor_log2 y \<le> e"
    then have "e + 1 \<le> floor_log2 y" by simp
    then have "(2::rat) powi (e + 1) \<le> 2 powi floor_log2 y"
      by (intro power_int_increasing) simp_all
    with floor_log2_bounds(1)[OF assms(1)] assms(3) show False by linarith
  qed
  show "e \<le> floor_log2 y"
  proof (rule ccontr)
    assume "\<not> e \<le> floor_log2 y"
    then have "floor_log2 y + 1 \<le> e" by simp
    then have "(2::rat) powi (floor_log2 y + 1) \<le> 2 powi e"
      by (intro power_int_increasing) simp_all
    with floor_log2_bounds(2)[OF assms(1)] assms(2) show False by linarith
  qed
qed

lemma float_round_idem_pos:
  assumes "0 < x" "1 \<le> p"
  shows "float_round p (float_round p x) = float_round p x"
proof -
  define e where "e = floor_log2 x"
  define u :: rat where "u = 2 powi (e - int p + 1)"
  define k where "k = round_half_even (x / u)"
  define y where "y = float_round p x"
  have u: "0 < u" by (simp add: u_def)
  have y: "y = of_int k * u"
    unfolding y_def k_def u_def e_def by (rule float_round_pos_def[OF assms(1)])
  have ypos: "0 < y" unfolding y_def by (rule float_round_pos[OF assms])
  have b: "2 powi e \<le> y" "y \<le> 2 powi (e + 1)"
    using float_round_binade[OF assms] by (simp_all add: y_def e_def)
  show ?thesis
  proof (cases "y < 2 powi (e + 1)")
    case True
    have fe: "floor_log2 y = e" by (rule floor_log2_unique[OF ypos b(1) True])
    have "y / u = of_int k" using u by (simp add: y)
    then have "float_round p y = of_int k * u"
      unfolding float_round_pos_def[OF ypos] fe u_def[symmetric]
      by (simp only: round_half_even_of_int)
    then show ?thesis by (simp add: y y_def[symmetric])
  next
    case False
    then have ye: "y = 2 powi (e + 1)" using b(2) by simp
    have "(2::rat) powi (e + 1) < 2 powi (e + 1 + 1)"
      by (intro power_int_strict_increasing) simp_all
    then have fe: "floor_log2 y = e + 1"
      by (intro floor_log2_unique[OF ypos]) (simp_all add: ye)
    define u' :: rat where "u' = 2 powi (e + 1 - int p + 1)"
    have u': "0 < u'" by (simp add: u'_def)
    have eq: "int (p - 1) + (e + 1 - int p + 1) = e + 1" using assms(2) by simp
    have pa: "(2::rat) powi (int (p - 1) + (e + 1 - int p + 1)) =
        2 powi int (p - 1) * 2 powi (e + 1 - int p + 1)"
      by (rule power_int_add) simp
    have "(2::rat) powi (e + 1) = 2 powi int (p - 1) * u'"
      using pa unfolding eq u'_def .
    then have yu: "y = of_int (2 ^ (p - 1)) * u'" unfolding ye by simp
    then have "y / u' = of_int (2 ^ (p - 1))" using u' by simp
    then have "float_round p y = of_int (2 ^ (p - 1)) * u'"
      unfolding float_round_pos_def[OF ypos] fe u'_def[symmetric]
      by (simp only: round_half_even_of_int)
    then show ?thesis using yu by (simp add: y_def[symmetric])
  qed
qed

lemma float_round_idem:
  assumes "1 \<le> p"
  shows "float_round p (float_round p x) = float_round p x"
proof -
  consider "0 < x" | "x = 0" | "x < 0" by linarith
  then show ?thesis
  proof cases
    case 1
    then show ?thesis using float_round_idem_pos assms by blast
  next
    case 2
    then show ?thesis by (simp add: float_round_zero)
  next
    case 3
    then have "float_round p (float_round p (- x)) = float_round p (- x)"
      using float_round_idem_pos[of "- x" p] assms by simp
    then show ?thesis by (simp add: float_round_minus)
  qed
qed

lemma float32_idem: "float32 (float32 x) = float32 x"
  by (simp add: float32_def float_round_idem)

lemma float32_less_imp: "float32 th < float32 y \<Longrightarrow> th < float32 y"
proof (rule ccontr)
  assume a: "float32 th < float32 y" "\<not> th < float32 y"
  then have "float32 (float32 y) \<le> float32 th" by (intro float32_mono) simp
  with a(1) show False by (simp add: float32_idem)
qed

section \<open>Properties of the solver\<close>

text \<open>
  The exhaustive reference solver meets the contract of the assignment solver.
\<close>

lemma set_all_assignments: "set (all_assignments n m) = {a. valid_assignment n m a}"
proof -
  have "valid_assignment n m a \<Longrightarrow>
      a \<in> set (List.product (List.n_lists (min n m) [0..<n]) (List.n_lists (min n m) [0..<m]))" for a
    by (cases a) (auto simp: valid_assignment_def set_n_lists)
  then show ?thesis by (auto simp: all_assignments_def)
qed

lemma identity_assignment_valid: "valid_assignment n m ([0..<min n m], [0..<min n m])"
  by (auto simp: valid_assignment_def)

lemma all_assignments_nonempty: "all_assignments n m \<noteq> []"
proof -
  have "([0..<min n m], [0..<min n m]) \<in> set (all_assignments n m)"
    using identity_assignment_valid by (simp add: set_all_assignments)
  then show ?thesis by auto
qed

lemma is_matrix_hd: "0 < n \<Longrightarrow> is_matrix n m C \<Longrightarrow> length C = n \<and> length (hd C) = m"
  by (cases C) (auto simp: is_matrix_def)

lemma linear_sum_assignment_contract: "lsa_contract linear_sum_assignment"
  unfolding lsa_contract_def
proof (intro allI impI conjI)
  fix C :: "rat list list" and n m a
  assume h: "0 < n \<and> 0 < m \<and> is_matrix n m C"
  then have dims: "length C = n" "length (hd C) = m" using is_matrix_hd by blast+
  have sol: "linear_sum_assignment C = arg_min_list (assignment_cost C) (all_assignments n m)"
    by (simp add: linear_sum_assignment_def dims)
  have "linear_sum_assignment C \<in> set (all_assignments n m)"
    unfolding sol by (rule arg_min_list_in) (rule all_assignments_nonempty)
  then show "valid_assignment n m (linear_sum_assignment C)"
    by (simp add: set_all_assignments)
  assume "valid_assignment n m a"
  then have "a \<in> set (all_assignments n m)" by (simp add: set_all_assignments)
  then show "assignment_cost C (linear_sum_assignment C) \<le> assignment_cost C a"
    unfolding sol using f_arg_min_list_f[OF all_assignments_nonempty, of "assignment_cost C" n m]
    by simp
qed

section \<open>The cost of an assignment\<close>

lemma cost_matrix_nth:
  "g < length M \<Longrightarrow> p < length (M ! g) \<Longrightarrow>
   cost_matrix M th k ! g ! p = - (if M ! g ! p > float32 th then 1 else 0) - M ! g ! p / of_nat (2 * k)"
  by (simp add: cost_matrix_def)

lemma cost_split_list:
  assumes "\<forall>(g, p) \<in> set zs. g < length M \<and> p < length (M ! g)"
  shows "sum_list (map (\<lambda>(g, p). cost_matrix M th k ! g ! p) zs) =
         - of_nat (length (filter (\<lambda>(g, p). M ! g ! p > float32 th) zs))
         - sum_list (map (\<lambda>(g, p). M ! g ! p) zs) / of_nat (2 * k)"
  using assms
proof (induction zs)
  case Nil
  then show ?case by simp
next
  case (Cons z zs)
  obtain g p where z: "z = (g, p)" by (cases z)
  from Cons.prems z have b: "g < length M" "p < length (M ! g)" by auto
  from Cons have IH: "sum_list (map (\<lambda>(g, p). cost_matrix M th k ! g ! p) zs) =
         - of_nat (length (filter (\<lambda>(g, p). M ! g ! p > float32 th) zs))
         - sum_list (map (\<lambda>(g, p). M ! g ! p) zs) / of_nat (2 * k)" by auto
  show ?case
    by (simp add: z IH cost_matrix_nth[OF b] add_divide_distrib)
qed

lemma iou_sum_bounds_list:
  fixes M :: "rat list list"
  assumes "\<forall>(g, p) \<in> set zs. 0 \<le> M ! g ! p \<and> M ! g ! p \<le> 1"
  shows "0 \<le> sum_list (map (\<lambda>(g, p). M ! g ! p) zs) \<and>
         sum_list (map (\<lambda>(g, p). M ! g ! p) zs) \<le> of_nat (length zs)"
  using assms
proof (induction zs)
  case Nil
  then show ?case by simp
next
  case (Cons z zs)
  obtain g p where z: "z = (g, p)" by (cases z)
  from Cons.prems z have b: "0 \<le> M ! g ! p" "M ! g ! p \<le> 1" by auto
  from Cons have IH: "0 \<le> sum_list (map (\<lambda>(g, p). M ! g ! p) zs)"
     "sum_list (map (\<lambda>(g, p). M ! g ! p) zs) \<le> of_nat (length zs)" by auto
  show ?case using b IH by (simp add: z)
qed

lemma assignment_cost_split:
  assumes "valid_assignment (length M) m a" "is_matrix (length M) m M"
  shows "assignment_cost (cost_matrix M th k) a =
         - of_nat (above_threshold M (float32 th) a) - iou_sum M a / of_nat (2 * k)"
proof -
  have "\<forall>(g, p) \<in> set (zip (fst a) (snd a)). g < length M \<and> p < length (M ! g)"
  proof clarify
    fix g p assume "(g, p) \<in> set (zip (fst a) (snd a))"
    then have "g \<in> set (fst a)" "p \<in> set (snd a)" by (auto dest: set_zip_leftD set_zip_rightD)
    then have "g < length M" "p < m" using assms(1) by (auto simp: valid_assignment_def)
    moreover then have "length (M ! g) = m" using assms(2) by (auto simp: is_matrix_def)
    ultimately show "g < length M \<and> p < length (M ! g)" by simp
  qed
  from cost_split_list[OF this] show ?thesis
    by (simp add: assignment_cost_def above_threshold_def iou_sum_def)
qed

lemma iou_sum_bounds:
  assumes "valid_assignment (length M) m a" "is_matrix (length M) m M" "unit_entries M"
  shows "0 \<le> iou_sum M a \<and> iou_sum M a \<le> of_nat (min (length M) m)"
proof -
  have "\<forall>(g, p) \<in> set (zip (fst a) (snd a)). 0 \<le> M ! g ! p \<and> M ! g ! p \<le> 1"
  proof clarify
    fix g p assume "(g, p) \<in> set (zip (fst a) (snd a))"
    then have "g \<in> set (fst a)" "p \<in> set (snd a)" by (auto dest: set_zip_leftD set_zip_rightD)
    then have "g < length M" "p < m" using assms(1) by (auto simp: valid_assignment_def)
    moreover then have "length (M ! g) = m" using assms(2) by (auto simp: is_matrix_def)
    ultimately have "M ! g \<in> set M" "M ! g ! p \<in> set (M ! g)" by auto
    then show "0 \<le> M ! g ! p \<and> M ! g ! p \<le> 1" using assms(3) by (auto simp: unit_entries_def)
  qed
  from iou_sum_bounds_list[OF this] show ?thesis
    using assms(1) by (simp add: iou_sum_def valid_assignment_def)
qed

lemma cost_bounds:
  assumes "valid_assignment (length M) m a" "is_matrix (length M) m M" "unit_entries M"
    and "0 < min (length M) m"
  shows "- of_nat (above_threshold M (float32 th) a) - 1 / 2 \<le> assignment_cost (cost_matrix M th (min (length M) m)) a"
    and "assignment_cost (cost_matrix M th (min (length M) m)) a \<le> - of_nat (above_threshold M (float32 th) a)"
proof -
  let ?k = "min (length M) m"
  have k: "(0::rat) < of_nat ?k" using assms(4) by simp
  have s: "0 \<le> iou_sum M a" "iou_sum M a \<le> of_nat ?k" using iou_sum_bounds[OF assms(1-3)] by auto
  have "iou_sum M a / of_nat (2 * ?k) \<le> 1 / 2"
    using s k by (simp add: field_simps)
  moreover have "0 \<le> iou_sum M a / of_nat (2 * ?k)" using s by simp
  ultimately show "- of_nat (above_threshold M (float32 th) a) - 1 / 2 \<le> assignment_cost (cost_matrix M th ?k) a"
    and "assignment_cost (cost_matrix M th ?k) a \<le> - of_nat (above_threshold M (float32 th) a)"
    unfolding assignment_cost_split[OF assms(1,2)] by linarith+
qed

lemma optimal_maximises_above:
  assumes va: "valid_assignment (length M) m a" and vb: "valid_assignment (length M) m b"
    and mat: "is_matrix (length M) m M" "unit_entries M" "0 < min (length M) m"
    and opt: "assignment_cost (cost_matrix M th (min (length M) m)) a
              \<le> assignment_cost (cost_matrix M th (min (length M) m)) b"
  shows "above_threshold M (float32 th) b \<le> above_threshold M (float32 th) a"
proof (rule ccontr)
  assume "\<not> above_threshold M (float32 th) b \<le> above_threshold M (float32 th) a"
  then have "above_threshold M (float32 th) a + 1 \<le> above_threshold M (float32 th) b" by simp
  then have "(of_nat (above_threshold M (float32 th) a) :: rat) + 1 \<le> of_nat (above_threshold M (float32 th) b)"
    by (metis of_nat_1 of_nat_add of_nat_le_iff)
  with cost_bounds(1)[OF va mat, of th] cost_bounds(2)[OF vb mat, of th] opt
  show False by linarith
qed

section \<open>Assignments and matchings\<close>

lemma is_matching_zip:
  assumes "distinct rs" "distinct cs"
  shows "is_matching (set (zip rs cs))"
proof -
  have "inj_on fst (set (zip rs cs))"
  proof (rule inj_onI)
    fix x y assume "x \<in> set (zip rs cs)" "y \<in> set (zip rs cs)" "fst x = fst y"
    then obtain i j where i: "i < length rs" "i < length cs" "x = (rs ! i, cs ! i)"
      and j: "j < length rs" "j < length cs" "y = (rs ! j, cs ! j)"
      by (auto simp: set_zip)
    with \<open>fst x = fst y\<close> assms(1) have "i = j" by (simp add: nth_eq_iff_index_eq)
    with i j show "x = y" by simp
  qed
  moreover have "inj_on snd (set (zip rs cs))"
  proof (rule inj_onI)
    fix x y assume "x \<in> set (zip rs cs)" "y \<in> set (zip rs cs)" "snd x = snd y"
    then obtain i j where i: "i < length rs" "i < length cs" "x = (rs ! i, cs ! i)"
      and j: "j < length rs" "j < length cs" "y = (rs ! j, cs ! j)"
      by (auto simp: set_zip)
    with \<open>snd x = snd y\<close> assms(2) have "i = j" by (simp add: nth_eq_iff_index_eq)
    with i j show "x = y" by simp
  qed
  ultimately show ?thesis by (simp add: is_matching_def)
qed

lemma is_matching_subset: "is_matching P \<Longrightarrow> Q \<subseteq> P \<Longrightarrow> is_matching Q"
  by (auto simp: is_matching_def intro: inj_on_subset)

lemma assignment_gives_matching:
  assumes "valid_assignment (length M) m a" "is_matrix (length M) m M"
  shows "\<exists>P. P \<subseteq> qualifying_pairs M th \<and> is_matching P \<and> card P = above_threshold M th a"
proof -
  let ?zs = "zip (fst a) (snd a)"
  let ?P = "set (filter (\<lambda>(g, p). M ! g ! p > th) ?zs)"
  have d: "distinct ?zs" using assms(1) by (simp add: valid_assignment_def distinct_zipI1)
  have "card ?P = above_threshold M th a"
    unfolding above_threshold_def using d distinct_card[OF distinct_filter] by blast
  moreover have "is_matching ?P"
    by (rule is_matching_subset[OF is_matching_zip[of "fst a" "snd a"]])
       (use assms(1) in \<open>auto simp: valid_assignment_def\<close>)
  moreover have "?P \<subseteq> qualifying_pairs M th"
  proof
    fix x assume x: "x \<in> ?P"
    obtain g p where gp: "x = (g, p)" by (cases x)
    with x have "(g, p) \<in> set ?zs" "M ! g ! p > th" by auto
    then have "g \<in> set (fst a)" "p \<in> set (snd a)" by (auto dest: set_zip_leftD set_zip_rightD)
    then have "g < length M" "p < m" using assms(1) by (auto simp: valid_assignment_def)
    moreover then have "length (M ! g) = m" using assms(2) by (auto simp: is_matrix_def)
    ultimately show "x \<in> qualifying_pairs M th"
      using \<open>M ! g ! p > th\<close> by (simp add: qualifying_pairs_def gp)
  qed
  ultimately show ?thesis by blast
qed

lemma fresh_index:
  assumes "distinct rs" "\<forall>r \<in> set rs. r < n" "length rs < n"
  shows "\<exists>r. r < n \<and> r \<notin> set rs"
proof (rule ccontr)
  assume "\<not> ?thesis"
  then have "{..<n} \<subseteq> set rs" by auto
  then have "card {..<n} \<le> card (set rs)" by (intro card_mono) auto
  with assms(1,3) show False by (simp add: distinct_card)
qed

lemma distinct_bounded_length:
  assumes "distinct rs" "\<forall>r \<in> set rs. r < n"
  shows "length rs \<le> n"
proof -
  have "set rs \<subseteq> {..<n}" using assms(2) by auto
  then have "card (set rs) \<le> card {..<n}" by (intro card_mono) auto
  with assms(1) show ?thesis by (simp add: distinct_card)
qed

lemma extend_assignment:
  assumes "distinct rs" "distinct cs" "length rs = length cs"
    "\<forall>r \<in> set rs. r < n" "\<forall>c \<in> set cs. c < m"
  shows "\<exists>rs' cs'. length rs' = length cs' \<and> valid_assignment n m (rs @ rs', cs @ cs')"
  using assms
proof (induction "min n m - length rs" arbitrary: rs cs)
  case 0
  have "length rs \<le> n" "length cs \<le> m"
    using distinct_bounded_length "0.prems" by blast+
  with 0 have "length rs = min n m" "length cs = min n m" by auto
  with "0.prems" have "valid_assignment n m (rs @ [], cs @ [])"
    by (simp add: valid_assignment_def)
  then show ?case by (metis list.size(3))
next
  case (Suc d)
  then have lt: "length rs < n" "length cs < m" by auto
  obtain r where r: "r < n" "r \<notin> set rs"
    using fresh_index[OF Suc.prems(1) Suc.prems(4) lt(1)] by blast
  obtain c where c: "c < m" "c \<notin> set cs"
    using fresh_index[OF Suc.prems(2) Suc.prems(5) lt(2)] by blast
  have "\<exists>rs' cs'. length rs' = length cs' \<and> valid_assignment n m ((rs @ [r]) @ rs', (cs @ [c]) @ cs')"
  proof (rule Suc.hyps(1))
    show "d = min n m - length (rs @ [r])" using Suc.hyps(2) by simp
  qed (use Suc.prems r c in auto)
  then obtain rs' cs' where e: "length rs' = length cs'"
    "valid_assignment n m (rs @ (r # rs'), cs @ (c # cs'))" by auto
  show ?case
    by (rule exI[of _ "r # rs'"], rule exI[of _ "c # cs'"]) (use e in simp)
qed

lemma finite_qualifying_pairs: "finite (qualifying_pairs M th)"
proof -
  have "qualifying_pairs M th \<subseteq> (\<Union>g \<in> {..<length M}. {g} \<times> {..<length (M ! g)})"
    by (auto simp: qualifying_pairs_def)
  moreover have "finite (\<Union>g \<in> {..<length M}. {g} \<times> {..<length (M ! g)})" by simp
  ultimately show ?thesis by (rule finite_subset)
qed

lemma matching_gives_assignment:
  assumes "P \<subseteq> qualifying_pairs M th" "is_matching P" "is_matrix (length M) m M"
  shows "\<exists>a. valid_assignment (length M) m a \<and> card P \<le> above_threshold M th a"
proof -
  have "finite P" using assms(1) finite_qualifying_pairs by (rule finite_subset)
  then obtain ps where ps: "distinct ps" "set ps = P" using finite_distinct_list by blast
  let ?rs = "map fst ps" and ?cs = "map snd ps"
  have inj: "inj_on fst (set ps)" "inj_on snd (set ps)" using assms(2) ps by (auto simp: is_matching_def)
  have d: "distinct ?rs" "distinct ?cs" using ps inj by (simp_all add: distinct_map)
  have inE: "\<And>g p. (g, p) \<in> set ps \<Longrightarrow> g < length M \<and> p < m \<and> M ! g ! p > th"
  proof -
    fix g p assume "(g, p) \<in> set ps"
    then have q: "(g, p) \<in> qualifying_pairs M th" using ps assms(1) by auto
    then have "g < length M" "p < length (M ! g)" "M ! g ! p > th" by (auto simp: qualifying_pairs_def)
    moreover then have "length (M ! g) = m" using assms(3) by (auto simp: is_matrix_def)
    ultimately show "g < length M \<and> p < m \<and> M ! g ! p > th" by simp
  qed
  have b: "\<forall>r \<in> set ?rs. r < length M" "\<forall>c \<in> set ?cs. c < m" using inE by fastforce+
  obtain rs' cs' where e: "length rs' = length cs'"
    "valid_assignment (length M) m (?rs @ rs', ?cs @ cs')"
    using extend_assignment[OF d _ b] by auto
  have z: "zip (?rs @ rs') (?cs @ cs') = ps @ zip rs' cs'" by (simp add: zip_map_fst_snd)
  have "filter (\<lambda>(g, p). M ! g ! p > th) ps = ps"
    using inE by (auto simp: filter_id_conv)
  then have "length ps \<le> above_threshold M th (?rs @ rs', ?cs @ cs')"
    by (simp add: above_threshold_def z)
  moreover have "card P = length ps" using ps by (metis distinct_card)
  ultimately show ?thesis using e(2) by auto
qed

lemma optimal_assignment_max_matching:
  assumes va: "valid_assignment (length M) m a"
    and mat: "is_matrix (length M) m M" "unit_entries M" "0 < min (length M) m"
    and opt: "\<forall>b. valid_assignment (length M) m b \<longrightarrow>
                assignment_cost (cost_matrix M th (min (length M) m)) a
                \<le> assignment_cost (cost_matrix M th (min (length M) m)) b"
  shows "is_max_matching_size (qualifying_pairs M (float32 th)) (above_threshold M (float32 th) a)"
  unfolding is_max_matching_size_def
proof (intro conjI allI impI)
  show "\<exists>P. P \<subseteq> qualifying_pairs M (float32 th) \<and> is_matching P \<and> card P = above_threshold M (float32 th) a"
    by (rule assignment_gives_matching[OF va mat(1)])
next
  fix P assume "P \<subseteq> qualifying_pairs M (float32 th) \<and> is_matching P"
  then obtain b where b: "valid_assignment (length M) m b" "card P \<le> above_threshold M (float32 th) b"
    using matching_gives_assignment[OF _ _ mat(1)] by blast
  have "above_threshold M (float32 th) b \<le> above_threshold M (float32 th) a"
    by (rule optimal_maximises_above[OF va b(1) mat]) (use opt b(1) in blast)
  with b(2) show "card P \<le> above_threshold M (float32 th) a" by simp
qed

text \<open>
  The count does not depend on how the cost entries are rounded. For every cost matrix
  whose entries lie between \<open>- ind - eps\<close> and \<open>- ind\<close>, where ind is 1 for a
  qualifying pair and 0 otherwise and \<open>num_matches * eps < 1\<close>, a minimum-cost assignment
  has the maximum number of qualifying pairs. The entries of \<open>cost_matrix\<close> lie in this
  band with \<open>eps = 1 / (2 * num_matches)\<close>.
\<close>

lemma banded_sum_list:
  fixes C M :: "rat list list"
  assumes "\<forall>(g, p) \<in> set zs.
      - (if M ! g ! p > t then 1 else 0) - eps \<le> C ! g ! p \<and>
      C ! g ! p \<le> - (if M ! g ! p > t then 1 else 0)"
  shows "- of_nat (length (filter (\<lambda>(g, p). M ! g ! p > t) zs)) - of_nat (length zs) * eps
           \<le> sum_list (map (\<lambda>(g, p). C ! g ! p) zs) \<and>
         sum_list (map (\<lambda>(g, p). C ! g ! p) zs)
           \<le> - of_nat (length (filter (\<lambda>(g, p). M ! g ! p > t) zs))"
  using assms
proof (induction zs)
  case Nil
  then show ?case by simp
next
  case (Cons z zs)
  obtain g p where z: "z = (g, p)" by (cases z)
  from Cons.prems z have b: "- (if M ! g ! p > t then 1 else 0) - eps \<le> C ! g ! p"
    "C ! g ! p \<le> - (if M ! g ! p > t then 1 else 0)" by auto
  from Cons have IH:
    "- of_nat (length (filter (\<lambda>(g, p). M ! g ! p > t) zs)) - of_nat (length zs) * eps
           \<le> sum_list (map (\<lambda>(g, p). C ! g ! p) zs)"
    "sum_list (map (\<lambda>(g, p). C ! g ! p) zs)
           \<le> - of_nat (length (filter (\<lambda>(g, p). M ! g ! p > t) zs))" by auto
  show ?case
  proof (cases "M ! g ! p > t")
    case True
    then show ?thesis using b IH by (simp add: z algebra_simps)
  next
    case False
    then show ?thesis using b IH by (simp add: z algebra_simps)
  qed
qed

lemma banded_cost_maximises:
  fixes C M :: "rat list list"
  assumes va: "valid_assignment n m a" and vb: "valid_assignment n m b"
    and band: "\<forall>g<n. \<forall>p<m.
      - (if M ! g ! p > t then 1 else 0) - eps \<le> C ! g ! p \<and>
      C ! g ! p \<le> - (if M ! g ! p > t then 1 else 0)"
    and eps: "0 \<le> eps" "of_nat (min n m) * eps < 1"
    and opt: "assignment_cost C a \<le> assignment_cost C b"
  shows "above_threshold M t b \<le> above_threshold M t a"
proof (rule ccontr)
  assume "\<not> above_threshold M t b \<le> above_threshold M t a"
  then have "above_threshold M t a + 1 \<le> above_threshold M t b" by simp
  then have gap: "(of_nat (above_threshold M t a) :: rat) + 1 \<le> of_nat (above_threshold M t b)"
    by (metis of_nat_1 of_nat_add of_nat_le_iff)
  have inband: "\<forall>(g, p) \<in> set (zip (fst c) (snd c)).
      - (if M ! g ! p > t then 1 else 0) - eps \<le> C ! g ! p \<and>
      C ! g ! p \<le> - (if M ! g ! p > t then 1 else 0)" if "valid_assignment n m c" for c
  proof clarify
    fix g p assume "(g, p) \<in> set (zip (fst c) (snd c))"
    then have "g \<in> set (fst c)" "p \<in> set (snd c)" by (auto dest: set_zip_leftD set_zip_rightD)
    then have "g < n" "p < m" using that by (auto simp: valid_assignment_def)
    then show "- (if M ! g ! p > t then 1 else 0) - eps \<le> C ! g ! p \<and>
      C ! g ! p \<le> - (if M ! g ! p > t then 1 else 0)" using band by blast
  qed
  have la: "length (zip (fst a) (snd a)) = min n m" using va by (simp add: valid_assignment_def)
  have "- of_nat (above_threshold M t a) - of_nat (min n m) * eps \<le> assignment_cost C a"
    using banded_sum_list[OF inband[OF va]] unfolding la
    by (simp add: assignment_cost_def above_threshold_def)
  moreover have "assignment_cost C b \<le> - of_nat (above_threshold M t b)"
    using banded_sum_list[OF inband[OF vb]]
    by (simp add: assignment_cost_def above_threshold_def)
  ultimately show False using gap opt eps(2) by linarith
qed

lemma banded_cost_true_positives:
  fixes C M :: "rat list list"
  assumes sol: "lsa_contract solver"
    and mat: "is_matrix n m M" "is_matrix n m C" and pos: "0 < min n m"
    and band: "\<forall>g<n. \<forall>p<m.
      - (if M ! g ! p > t then 1 else 0) - eps \<le> C ! g ! p \<and>
      C ! g ! p \<le> - (if M ! g ! p > t then 1 else 0)"
    and eps: "0 \<le> eps" "of_nat (min n m) * eps < 1"
  shows "is_max_matching_size (qualifying_pairs M t) (above_threshold M t (solver C))"
proof -
  have n: "length M = n" using mat(1) by (simp add: is_matrix_def)
  have va: "valid_assignment n m (solver C)"
    and opt: "\<forall>b. valid_assignment n m b \<longrightarrow> assignment_cost C (solver C) \<le> assignment_cost C b"
    using sol pos mat(2) unfolding lsa_contract_def by (metis min_less_iff_conj)+
  show ?thesis
    unfolding is_max_matching_size_def
  proof (intro conjI allI impI)
    show "\<exists>P. P \<subseteq> qualifying_pairs M t \<and> is_matching P \<and> card P = above_threshold M t (solver C)"
      using assignment_gives_matching[of M m "solver C" t] va mat(1) by (simp add: n)
  next
    fix P assume "P \<subseteq> qualifying_pairs M t \<and> is_matching P"
    then obtain b where b: "valid_assignment n m b" "card P \<le> above_threshold M t b"
      using matching_gives_assignment[of P M t m] mat(1) by (auto simp: n)
    have "above_threshold M t b \<le> above_threshold M t (solver C)"
      by (rule banded_cost_maximises[OF va b(1) band eps]) (use opt b(1) in blast)
    with b(2) show "card P \<le> above_threshold M t (solver C)" by simp
  qed
qed

section \<open>Relabelling and the IoU table\<close>

lemma np_max_Max: "xs \<noteq> [] \<Longrightarrow> np_max xs = Inr (Max (set xs))"
  using Max.set_eq_fold[of "hd xs" "tl xs"] by (cases xs) simp_all

lemma set_np_unique: "set (np_unique xs) = set xs"
  by (simp add: np_unique_def)

lemma distinct_np_unique: "distinct (np_unique xs)"
  by (simp add: np_unique_def)

lemma set_instance_labels: "set (instance_labels xs) = set xs - {0}"
  by (auto simp: instance_labels_def set_np_unique)

lemma distinct_instance_labels: "distinct (instance_labels xs)"
  by (simp add: instance_labels_def distinct_np_unique)

lemma index_of_less: "v \<in> set L \<Longrightarrow> index_of L v < length L"
  by (induction L) auto

lemma nth_index_of: "v \<in> set L \<Longrightarrow> L ! index_of L v = v"
  by (induction L) auto

lemma index_of_nth: "distinct L \<Longrightarrow> i < length L \<Longrightarrow> index_of L (L ! i) = i"
proof (induction L arbitrary: i)
  case Nil
  then show ?case by simp
next
  case (Cons x L)
  then show ?case by (cases i) auto
qed

lemma relabel_value_zero: "relabel_value L 0 = 0"
  by (simp add: relabel_value_def)

lemma relabel_value_nth: "distinct L \<Longrightarrow> 0 \<notin> set L \<Longrightarrow> i < length L \<Longrightarrow> relabel_value L (L ! i) = Suc i"
proof -
  assume h: "distinct L" "0 \<notin> set L" "i < length L"
  then have "L ! i \<in> set L" by simp
  with h(2) have "L ! i \<noteq> 0" by metis
  then show ?thesis using h by (simp add: relabel_value_def index_of_nth)
qed

lemma relabel_value_le: "v = 0 \<or> v \<in> set L \<Longrightarrow> relabel_value L v \<le> length L"
  using index_of_less[of v L] by (auto simp: relabel_value_def)

lemma relabel_value_inj: "inj_on (relabel_value L) (insert 0 (set L))"
proof (rule inj_onI)
  fix v w assume h: "v \<in> insert 0 (set L)" "w \<in> insert 0 (set L)" "relabel_value L v = relabel_value L w"
  show "v = w"
  proof (cases "v = 0 \<or> w = 0")
    case True
    with h(3) show ?thesis by (auto simp: relabel_value_def split: if_splits)
  next
    case False
    with h have "index_of L v = index_of L w" "v \<in> set L" "w \<in> set L"
      by (auto simp: relabel_value_def)
    then show ?thesis by (metis nth_index_of)
  qed
qed

lemma relabel_np_max:
  assumes "xs \<noteq> []"
  shows "np_max (map (relabel_value (instance_labels xs)) xs) = Inr (length (instance_labels xs))"
proof -
  let ?L = "instance_labels xs" and ?r = "relabel_value (instance_labels xs)"
  have "Max (?r ` set xs) = length ?L"
  proof (rule Max_eqI)
    show "finite (?r ` set xs)" by simp
    fix y assume "y \<in> ?r ` set xs"
    then obtain v where "v \<in> set xs" "y = ?r v" by auto
    then show "y \<le> length ?L" using relabel_value_le[of v ?L] by (auto simp: set_instance_labels)
  next
    show "length ?L \<in> ?r ` set xs"
    proof (cases "?L = []")
      case True
      then have "set xs - {0} = {}" using set_instance_labels[of xs] by simp
      moreover from assms obtain x where "x \<in> set xs" by (cases xs) auto
      ultimately have "0 \<in> set xs" by auto
      then show ?thesis using True by (force simp: relabel_value_zero)
    next
      case False
      let ?i = "length ?L - 1"
      have i: "?i < length ?L" using False by simp
      have "0 \<notin> set ?L" by (simp add: set_instance_labels)
      then have "?r (?L ! ?i) = Suc ?i"
        using relabel_value_nth[OF distinct_instance_labels _ i] by simp
      moreover have "?L ! ?i \<in> set xs" using nth_mem[OF i] by (simp add: set_instance_labels)
      ultimately show ?thesis using i by force
    qed
  qed
  then show ?thesis using assms by (simp add: np_max_Max)
qed

lemma map_of_np_unique_counts:
  "map_of (np_unique_counts zs) v = (if v \<in> set zs then Some (count_list zs v) else None)"
  by (simp add: np_unique_counts_def map_of_map_restrict set_np_unique restrict_map_def)

lemma distinct_keys_np_unique_counts: "distinct (map fst (np_unique_counts zs))"
  by (simp add: np_unique_counts_def comp_def distinct_np_unique)

lemma set_keys_np_unique_counts: "fst ` set (np_unique_counts zs) = set zs"
  by (force simp: np_unique_counts_def set_np_unique)

lemma is_matrix_update:
  assumes "is_matrix n m M" "v < n"
  shows "is_matrix n m (M[v := (M ! v)[u := x]])"
proof -
  have "length (M ! v) = m" using assms by (auto simp: is_matrix_def)
  moreover have "set (M[v := (M ! v)[u := x]]) \<subseteq> insert ((M ! v)[u := x]) (set M)"
    by (rule set_update_subset_insert)
  ultimately show ?thesis using assms(1) by (auto simp: is_matrix_def)
qed

lemma nth_matrix_update:
  assumes "is_matrix n m M" "v < n" "u < m" "v' < n" "u' < m"
  shows "M[v := (M ! v)[u := x]] ! v' ! u' = (if v' = v \<and> u' = u then x else M ! v' ! u')"
proof -
  have "length M = n" "length (M ! v) = m" using assms by (auto simp: is_matrix_def)
  then show ?thesis using assms by (auto simp: nth_list_update)
qed

lemma fill_iou_result:
  assumes "distinct (map fst es)"
    and "\<forall>((u, v), c) \<in> set es. gd v \<noteq> None \<and> pd u \<noteq> None \<and> v < n \<and> u < m"
    and "is_matrix n m M"
  shows "\<exists>M'. fill_iou es gd pd M = Inr M' \<and> is_matrix n m M' \<and>
           (\<forall>v<n. \<forall>u<m. M' ! v ! u =
              (case map_of es (u, v) of None \<Rightarrow> M ! v ! u
               | Some c \<Rightarrow> float32 (float64 (of_nat c / (of_nat (the (gd v)) + of_nat (the (pd u)) - of_nat c)))))"
  using assms
proof (induction es arbitrary: M)
  case Nil
  then show ?case by simp
next
  case (Cons e es)
  obtain u v c where e: "e = ((u, v), c)" by (cases e) auto
  from Cons.prems(2) e obtain g p where gp: "gd v = Some g" "pd u = Some p" and b: "v < n" "u < m"
    by auto
  let ?x = "float32 (float64 (of_nat c / (of_nat g + of_nat p - of_nat c)))"
  let ?M1 = "M[v := (M ! v)[u := ?x]]"
  have dims: "length M = n" "length (M ! v) = m" using Cons.prems(3) b by (auto simp: is_matrix_def)
  have m1: "is_matrix n m ?M1" by (rule is_matrix_update[OF Cons.prems(3) b(1)])
  have step: "fill_iou (e # es) gd pd M = fill_iou es gd pd ?M1"
    by (simp add: e gp b dims)
  from Cons.prems(1) e have fresh: "map_of es (u, v) = None"
    by (simp add: map_of_eq_None_iff)
  obtain M' where M': "fill_iou es gd pd ?M1 = Inr M'" "is_matrix n m M'"
    "\<forall>v'<n. \<forall>u'<m. M' ! v' ! u' =
        (case map_of es (u', v') of None \<Rightarrow> ?M1 ! v' ! u'
         | Some c \<Rightarrow> float32 (float64 (of_nat c / (of_nat (the (gd v')) + of_nat (the (pd u')) - of_nat c))))"
    using Cons.IH[OF _ _ m1] Cons.prems(1,2) by auto
  have "\<forall>v'<n. \<forall>u'<m. M' ! v' ! u' =
        (case map_of (e # es) (u', v') of None \<Rightarrow> M ! v' ! u'
         | Some c \<Rightarrow> float32 (float64 (of_nat c / (of_nat (the (gd v')) + of_nat (the (pd u')) - of_nat c))))"
  proof (intro allI impI)
    fix v' u' assume vu: "v' < n" "u' < m"
    show "M' ! v' ! u' =
        (case map_of (e # es) (u', v') of None \<Rightarrow> M ! v' ! u'
         | Some c \<Rightarrow> float32 (float64 (of_nat c / (of_nat (the (gd v')) + of_nat (the (pd u')) - of_nat c))))"
    proof (cases "(u', v') = (u, v)")
      case True
      then show ?thesis
        using M'(3) vu fresh nth_matrix_update[OF Cons.prems(3) b vu, of ?x]
        by (simp add: e gp)
    next
      case False
      then have a: "map_of (e # es) (u', v') = map_of es (u', v')" by (auto simp: e)
      have b': "?M1 ! v' ! u' = M ! v' ! u'"
        using False nth_matrix_update[OF Cons.prems(3) b vu, of ?x] by auto
      have "M' ! v' ! u' =
        (case map_of es (u', v') of None \<Rightarrow> ?M1 ! v' ! u'
         | Some c \<Rightarrow> float32 (float64 (of_nat c / (of_nat (the (gd v')) + of_nat (the (pd u')) - of_nat c))))"
        using M'(3) vu by blast
      then show ?thesis by (simp only: a b')
    qed
  qed
  with M'(1,2) step show ?case by auto
qed

lemma count_list_map_inj:
  "inj_on f (insert a (set xs)) \<Longrightarrow> count_list (map f xs) (f a) = count_list xs a"
proof (induction xs)
  case Nil
  then show ?case by simp
next
  case (Cons x xs)
  have "inj_on f (insert a (set xs))" by (rule inj_on_subset[OF Cons.prems]) auto
  moreover have "f x = f a \<longleftrightarrow> x = a" using Cons.prems by (auto simp: inj_on_def)
  ultimately show ?case using Cons.IH by simp
qed

lemma count_list_zip_map_inj:
  assumes "inj_on f (insert a (set xs))" "inj_on g (insert b (set ys))"
  shows "count_list (zip (map g ys) (map f xs)) (g b, f a) = count_list (zip ys xs) (b, a)"
proof -
  have "inj_on (map_prod g f) (insert b (set ys) \<times> insert a (set xs))"
    using assms by (rule_tac map_prod_inj_on)
  moreover have "insert (b, a) (set (zip ys xs)) \<subseteq> insert b (set ys) \<times> insert a (set xs)"
    by (auto dest: set_zip_leftD set_zip_rightD)
  ultimately have "inj_on (map_prod g f) (insert (b, a) (set (zip ys xs)))"
    by (rule inj_on_subset)
  from count_list_map_inj[OF this] show ?thesis by (simp add: zip_map_map map_prod_def)
qed

lemma iou_of_map:
  assumes "inj_on f (insert a (set xs))" "inj_on g (insert b (set ys))"
  shows "iou_of (map f xs) (map g ys) (f a) (g b) = iou_of xs ys a b"
  by (simp add: iou_of_def count_list_map_inj[OF assms(1)] count_list_map_inj[OF assms(2)]
      count_list_zip_map_inj[OF assms])

lemma count_list_zip_le_right: "count_list (zip ys xs) (b, a) \<le> count_list xs a"
proof (induction xs arbitrary: ys)
  case Nil
  then show ?case by simp
next
  case (Cons x xs)
  show ?case
  proof (cases ys)
    case Nil
    then show ?thesis by simp
  next
    case (Cons y ys')
    with Cons.IH[of ys'] show ?thesis by auto
  qed
qed

lemma count_list_zip_le_left: "count_list (zip ys xs) (b, a) \<le> count_list ys b"
proof (induction ys arbitrary: xs)
  case Nil
  then show ?case by simp
next
  case (Cons y ys)
  show ?case
  proof (cases xs)
    case Nil
    then show ?thesis by simp
  next
    case (Cons x xs')
    with Cons.IH[of xs'] show ?thesis by auto
  qed
qed

lemma iou_of_bounds: "0 \<le> iou_of xs ys a b \<and> iou_of xs ys a b \<le> 1"
proof -
  let ?c = "count_list (zip ys xs) (b, a)"
  let ?d = "of_nat (count_list xs a) + of_nat (count_list ys b) - of_nat ?c :: rat"
  have le: "(of_nat ?c :: rat) \<le> of_nat (count_list xs a)" "(of_nat ?c :: rat) \<le> of_nat (count_list ys b)"
    using count_list_zip_le_right[of ys xs b a] count_list_zip_le_left[of ys xs b a] by simp_all
  have c0: "(0::rat) \<le> of_nat ?c" by simp
  have d: "of_nat ?c \<le> ?d" using le by linarith
  then have d0: "0 \<le> ?d" using c0 by linarith
  have "0 \<le> of_nat ?c / ?d" using c0 d0 by (rule divide_nonneg_nonneg)
  moreover have "of_nat ?c / ?d \<le> 1"
  proof (cases "?d = 0")
    case True
    then show ?thesis by simp
  next
    case False
    with d0 have "0 < ?d" by simp
    then show ?thesis using d by (simp add: divide_le_eq_1)
  qed
  ultimately show ?thesis using stored_iou_unit[of "of_nat ?c / ?d"] by (simp add: iou_of_def)
qed

lemma iou_of_absent: "(b, a) \<notin> set (zip ys xs) \<Longrightarrow> iou_of xs ys a b = 0"
  by (simp add: iou_of_def count_list_0_iff float32_zero float64_zero)

lemma is_matrix_replicate: "is_matrix n m (replicate n (replicate m x))"
  by (simp add: is_matrix_def)

lemma is_matrix_drop_background:
  assumes "is_matrix (Suc n) (Suc m) M"
  shows "is_matrix n m (map tl (tl M))"
    and "\<forall>i<n. \<forall>j<m. map tl (tl M) ! i ! j = M ! Suc i ! Suc j"
proof -
  from assms have len: "length M = Suc n" and rows: "\<forall>row \<in> set M. length row = Suc m"
    by (auto simp: is_matrix_def)
  have tl_rows: "\<forall>row \<in> set (tl M). length row = Suc m"
    using rows by (metis list.set_sel(2) tl_Nil)
  show "is_matrix n m (map tl (tl M))"
    using len tl_rows by (auto simp: is_matrix_def)
  show "\<forall>i<n. \<forall>j<m. map tl (tl M) ! i ! j = M ! Suc i ! Suc j"
  proof (intro allI impI)
    fix i j assume ij: "i < n" "j < m"
    then have i: "i < length (tl M)" using len by simp
    have "tl M ! i = M ! Suc i" using len ij by (simp add: nth_tl)
    moreover have "length (tl M ! i) = Suc m" using tl_rows i by simp
    ultimately show "map tl (tl M) ! i ! j = M ! Suc i ! Suc j"
      using i ij by (simp add: nth_tl)
  qed
qed

lemma relabel_inj_on_image:
  "inj_on (relabel_value (instance_labels xs)) (insert a (set xs))" if "a = 0 \<or> a \<in> set xs"
proof -
  have "insert a (set xs) \<subseteq> insert 0 (set (instance_labels xs))"
    using that by (auto simp: set_instance_labels)
  then show ?thesis using relabel_value_inj by (rule inj_on_subset[rotated])
qed

lemma relabelled_le:
  "v \<in> set (map (relabel_value (instance_labels xs)) xs) \<Longrightarrow> v < Suc (length (instance_labels xs))"
proof -
  assume "v \<in> set (map (relabel_value (instance_labels xs)) xs)"
  then obtain a where "a \<in> set xs" "v = relabel_value (instance_labels xs) a" by auto
  moreover then have "a = 0 \<or> a \<in> set (instance_labels xs)" by (auto simp: set_instance_labels)
  ultimately show ?thesis
    using relabel_value_le[of a "instance_labels xs"] by simp
qed

lemma iou_table_char:
  assumes ne: "concat gt \<noteq> []" and len: "length (concat gt) = length (concat pred)"
  shows "\<exists>M. iou_table gt pred =
            Inr (length (instance_labels (concat gt)), length (instance_labels (concat pred)), M) \<and>
          is_matrix (length (instance_labels (concat gt))) (length (instance_labels (concat pred))) M \<and>
          (\<forall>i<length (instance_labels (concat gt)). \<forall>j<length (instance_labels (concat pred)).
             M ! i ! j = iou_of (concat gt) (concat pred)
                           (instance_labels (concat gt) ! i) (instance_labels (concat pred) ! j))"
proof -
  define xs ys where "xs = concat gt" and "ys = concat pred"
  define Lg Lp where "Lg = instance_labels xs" and "Lp = instance_labels ys"
  define rg rp where "rg = relabel_value Lg" and "rp = relabel_value Lp"
  define xs' ys' where "xs' = map rg xs" and "ys' = map rp ys"
  define ng np where "ng = length Lg" and "np = length Lp"
  define es where "es = np_unique_counts (zip ys' xs')"
  define gd pd where "gd = map_of (np_unique_counts xs')" and "pd = map_of (np_unique_counts ys')"
  have nex: "xs \<noteq> []" and leq: "length xs = length ys"
    using ne len by (simp_all add: xs_def ys_def)
  have ney: "ys \<noteq> []" using nex leq by (metis length_0_conv)
  have r1: "relabel_sequential pred = Inr (map (map rp) pred)"
    using ney by (simp add: relabel_sequential_def ys_def rp_def Lp_def)
  have r2: "relabel_sequential gt = Inr (map (map rg) gt)"
    using nex by (simp add: relabel_sequential_def xs_def rg_def Lg_def)
  have c1: "concat (map (map rp) pred) = ys'" by (simp add: ys'_def ys_def map_concat)
  have c2: "concat (map (map rg) gt) = xs'" by (simp add: xs'_def xs_def map_concat)
  have st: "np_stack2 ys' xs' = Inr (zip ys' xs')"
    using leq by (simp add: np_stack2_def xs'_def ys'_def)
  have m1: "np_max ys' = Inr np"
    unfolding ys'_def rp_def Lp_def np_def by (rule relabel_np_max[OF ney])
  have m2: "np_max xs' = Inr ng"
    unfolding xs'_def rg_def Lg_def ng_def by (rule relabel_np_max[OF nex])
  have keys: "\<forall>((u, v), c) \<in> set es. gd v \<noteq> None \<and> pd u \<noteq> None \<and> v < Suc ng \<and> u < Suc np"
  proof clarify
    fix u v c assume "((u, v), c) \<in> set es"
    then have "(u, v) \<in> fst ` set es" by force
    then have "(u, v) \<in> set (zip ys' xs')" by (simp add: es_def set_keys_np_unique_counts)
    then have uv: "u \<in> set ys'" "v \<in> set xs'" by (auto dest: set_zip_leftD set_zip_rightD)
    then have "gd v \<noteq> None" "pd u \<noteq> None" by (simp_all add: gd_def pd_def map_of_np_unique_counts)
    moreover have "v < Suc ng" "u < Suc np"
      using uv relabelled_le[of v xs] relabelled_le[of u ys]
      by (simp_all add: xs'_def ys'_def rg_def rp_def Lg_def Lp_def ng_def np_def)
    ultimately show "gd v \<noteq> None \<and> pd u \<noteq> None \<and> v < Suc ng \<and> u < Suc np" by simp
  qed
  obtain F where F: "fill_iou es gd pd (replicate (Suc ng) (replicate (Suc np) 0)) = Inr F"
    "is_matrix (Suc ng) (Suc np) F"
    "\<forall>v<Suc ng. \<forall>u<Suc np. F ! v ! u =
        (case map_of es (u, v) of None \<Rightarrow> replicate (Suc ng) (replicate (Suc np) 0) ! v ! u
         | Some c \<Rightarrow> float32 (float64 (of_nat c / (of_nat (the (gd v)) + of_nat (the (pd u)) - of_nat c))))"
    using fill_iou_result[OF _ keys is_matrix_replicate, of 0]
    by (auto simp: es_def distinct_keys_np_unique_counts)
  have Fval: "F ! v ! u = iou_of xs' ys' v u" if "v < Suc ng" "u < Suc np" for v u
  proof (cases "(u, v) \<in> set (zip ys' xs')")
    case True
    then have uv: "u \<in> set ys'" "v \<in> set xs'" by (auto dest: set_zip_leftD set_zip_rightD)
    have "map_of es (u, v) = Some (count_list (zip ys' xs') (u, v))"
      using True by (simp add: es_def map_of_np_unique_counts)
    moreover have "gd v = Some (count_list xs' v)" "pd u = Some (count_list ys' u)"
      using uv by (simp_all add: gd_def pd_def map_of_np_unique_counts)
    ultimately show ?thesis using F(3) that by (simp add: iou_of_def)
  next
    case False
    then have "map_of es (u, v) = None" by (simp add: es_def map_of_np_unique_counts)
    moreover have "replicate (Suc ng) (replicate (Suc np) (0::rat)) ! v ! u = 0"
      using that by (simp del: replicate.simps)
    ultimately have "F ! v ! u = 0" using F(3) that by (simp del: replicate.simps)
    then show ?thesis using iou_of_absent[OF False] by simp
  qed
  let ?M = "map tl (tl F)"
  have tab: "iou_table gt pred = Inr (ng, np, ?M)"
    using F(1)
    by (simp add: iou_table_def bind_e_def r1 r2 c1 c2 st m1 m2 es_def gd_def pd_def)
  have mat: "is_matrix ng np ?M" by (rule is_matrix_drop_background(1)[OF F(2)])
  have "?M ! i ! j = iou_of xs ys (Lg ! i) (Lp ! j)" if ij: "i < ng" "j < np" for i j
  proof -
    have "?M ! i ! j = F ! Suc i ! Suc j"
      using is_matrix_drop_background(2)[OF F(2)] ij by blast
    also have "\<dots> = iou_of xs' ys' (Suc i) (Suc j)" using Fval ij by simp
    also have "\<dots> = iou_of xs' ys' (rg (Lg ! i)) (rp (Lp ! j))"
    proof -
      have "0 \<notin> set Lg" "0 \<notin> set Lp" by (simp_all add: Lg_def Lp_def set_instance_labels)
      then have "rg (Lg ! i) = Suc i" "rp (Lp ! j) = Suc j"
        using ij relabel_value_nth distinct_instance_labels
        by (simp_all add: rg_def rp_def Lg_def Lp_def ng_def np_def)
      then show ?thesis by simp
    qed
    also have "\<dots> = iou_of xs ys (Lg ! i) (Lp ! j)"
    proof -
      have "Lg ! i \<in> set Lg" "Lp ! j \<in> set Lp" using ij by (simp_all add: ng_def np_def)
      then have mem: "Lg ! i \<in> set xs" "Lp ! j \<in> set ys" by (simp_all add: Lg_def Lp_def set_instance_labels)
      have "inj_on rg (insert (Lg ! i) (set xs))"
        unfolding rg_def Lg_def by (rule relabel_inj_on_image) (use mem in \<open>simp add: Lg_def\<close>)
      moreover have "inj_on rp (insert (Lp ! j) (set ys))"
        unfolding rp_def Lp_def by (rule relabel_inj_on_image) (use mem in \<open>simp add: Lp_def\<close>)
      ultimately show ?thesis unfolding xs'_def ys'_def by (rule iou_of_map)
    qed
    finally show ?thesis .
  qed
  with tab mat show ?thesis
    unfolding ng_def np_def Lg_def Lp_def xs_def ys_def by blast
qed

lemma iou_table_errors:
  "concat pred = [] \<or> concat gt = [] \<or> length (concat gt) \<noteq> length (concat pred) \<Longrightarrow>
   iou_table gt pred = Inl ValueError"
  by (auto simp: iou_table_def bind_e_def relabel_sequential_def np_stack2_def map_concat[symmetric])

section \<open>The true-positive count\<close>

lemma is_max_matching_size_empty: "is_max_matching_size {} 0"
  by (auto simp: is_max_matching_size_def is_matching_def)

lemma is_max_matching_size_unique:
  "is_max_matching_size E k \<Longrightarrow> is_max_matching_size E k' \<Longrightarrow> k = k'"
  unfolding is_max_matching_size_def by (metis le_antisym)

lemma is_matrix_cost_matrix: "is_matrix n m M \<Longrightarrow> is_matrix n m (cost_matrix M th k)"
  by (auto simp: is_matrix_def cost_matrix_def)

lemma matrix_entries:
  assumes "is_matrix n m M"
  shows "set (concat M) = {M ! i ! j | i j. i < n \<and> j < m}"
proof -
  have len: "length M = n" "\<And>i. i < n \<Longrightarrow> length (M ! i) = m"
    using assms by (auto simp: is_matrix_def)
  show ?thesis
  proof (intro equalityI subsetI)
    fix x assume "x \<in> set (concat M)"
    then obtain row where "row \<in> set M" "x \<in> set row" by auto
    then obtain i j where "i < length M" "row = M ! i" "j < length row" "x = row ! j"
      by (metis in_set_conv_nth)
    then show "x \<in> {M ! i ! j | i j. i < n \<and> j < m}" using len by auto
  next
    fix x assume "x \<in> {M ! i ! j | i j. i < n \<and> j < m}"
    then obtain i j where "i < n" "j < m" "x = M ! i ! j" by auto
    then have "M ! i \<in> set M" "x \<in> set (M ! i)" using len by auto
    then show "x \<in> set (concat M)" by auto
  qed
qed

lemma qualifying_pairs_matrix:
  assumes "is_matrix n m M"
  shows "qualifying_pairs M th = {(g, p). g < n \<and> p < m \<and> M ! g ! p > th}"
  using assms by (auto simp: qualifying_pairs_def is_matrix_def)

lemma np_max_threshold:
  assumes "is_matrix n m M" "0 < n" "0 < m"
  shows "\<exists>mx. np_max (concat M) = Inr mx \<and> (mx > th \<longleftrightarrow> qualifying_pairs M th \<noteq> {})"
proof -
  have "M ! 0 ! 0 \<in> {M ! i ! j | i j. i < n \<and> j < m}" using assms(2,3) by blast
  then have ex: "M ! 0 ! 0 \<in> set (concat M)" by (simp only: matrix_entries[OF assms(1)])
  then have ne: "concat M \<noteq> []" by (metis empty_iff empty_set)
  have "Max (set (concat M)) > th \<longleftrightarrow> (\<exists>x \<in> set (concat M). x > th)"
    using ne by (subst Max_gr_iff) auto
  also have "\<dots> \<longleftrightarrow> (\<exists>x \<in> {M ! i ! j | i j. i < n \<and> j < m}. x > th)"
    by (simp only: matrix_entries[OF assms(1)])
  also have "\<dots> \<longleftrightarrow> qualifying_pairs M th \<noteq> {}"
    unfolding qualifying_pairs_matrix[OF assms(1)] by blast
  finally show ?thesis using np_max_Max[OF ne] by simp
qed

lemma count_tp_max_matching:
  assumes sol: "lsa_contract solver" and mat: "is_matrix n m M" and unit: "unit_entries M"
  shows "\<exists>tp. count_tp solver n m M th = Inr tp \<and> tp \<le> min n m \<and>
           is_max_matching_size (qualifying_pairs M (float32 th)) tp"
proof (cases "0 < min n m")
  case False
  then have "qualifying_pairs M (float32 th) = {}"
    by (auto simp: qualifying_pairs_matrix[OF mat])
  moreover have "count_tp solver n m M th = Inr 0" using False by (auto simp: count_tp_def)
  ultimately show ?thesis using is_max_matching_size_empty by simp
next
  case True
  then have pos: "0 < n" "0 < m" by auto
  have n: "length M = n" using mat by (simp add: is_matrix_def)
  obtain mx where mx: "np_max (concat M) = Inr mx" "mx > float32 th \<longleftrightarrow> qualifying_pairs M (float32 th) \<noteq> {}"
    using np_max_threshold[OF mat pos] by blast
  show ?thesis
  proof (cases "mx > float32 th")
    case False
    then have "count_tp solver n m M th = Inr 0"
      using True mx(1) by (simp add: count_tp_def bind_e_def)
    moreover have "qualifying_pairs M (float32 th) = {}" using False mx(2) by simp
    ultimately show ?thesis using is_max_matching_size_empty by simp
  next
    case gt: True
    let ?C = "cost_matrix M th (min n m)"
    let ?a = "solver ?C"
    have va: "valid_assignment n m ?a"
      and opt: "\<forall>b. valid_assignment n m b \<longrightarrow> assignment_cost ?C ?a \<le> assignment_cost ?C b"
      using sol pos is_matrix_cost_matrix[OF mat, of th "min n m"]
      unfolding lsa_contract_def by blast+
    obtain gi pi where a: "?a = (gi, pi)" by (cases ?a)
    have lens: "length gi = min n m" "length pi = min n m"
      using va a by (simp_all add: valid_assignment_def)
    have inrange: "list_all (\<lambda>(g, p). g < length M \<and> p < length (M ! g)) (zip gi pi)"
      unfolding list_all_iff
    proof clarify
      fix g p assume "(g, p) \<in> set (zip gi pi)"
      then have "g \<in> set gi" "p \<in> set pi" by (auto dest: set_zip_leftD set_zip_rightD)
      then have "g < n" "p < m" using va a by (auto simp: valid_assignment_def)
      moreover then have "length (M ! g) = m" using mat by (auto simp: is_matrix_def)
      ultimately show "g < length M \<and> p < length (M ! g)" using n by simp
    qed
    have tp: "count_tp solver n m M th = Inr (above_threshold M (float32 th) ?a)"
      using True gt mx(1) lens inrange
      by (simp add: count_tp_def bind_e_def a above_threshold_def)
    have "above_threshold M (float32 th) ?a \<le> length (zip gi pi)"
      unfolding above_threshold_def a fst_conv snd_conv by (rule length_filter_le)
    then have le: "above_threshold M (float32 th) ?a \<le> min n m" using lens by simp
    have "is_max_matching_size (qualifying_pairs M (float32 th)) (above_threshold M (float32 th) ?a)"
      using optimal_assignment_max_matching[of M m ?a th] va opt mat unit True
      by (simp add: n)
    with tp le show ?thesis by simp
  qed
qed

lemma unit_entries_matrix:
  assumes "is_matrix n m M" "\<forall>i<n. \<forall>j<m. 0 \<le> M ! i ! j \<and> M ! i ! j \<le> 1"
  shows "unit_entries M"
  unfolding unit_entries_def
proof (intro ballI)
  fix row x assume "row \<in> set M" "x \<in> set row"
  then have "x \<in> set (concat M)" by auto
  then obtain i j where "i < n" "j < m" "x = M ! i ! j"
    unfolding matrix_entries[OF assms(1)] by blast
  then show "0 \<le> x \<and> x \<le> 1" using assms(2) by simp
qed

lemma iou_table_Inr:
  assumes "iou_table gt pred = Inr (ng, np, M)"
  shows "concat gt \<noteq> []" "length (concat gt) = length (concat pred)"
    "ng = length (instance_labels (concat gt))" "np = length (instance_labels (concat pred))"
    "is_matrix ng np M" "unit_entries M"
    "\<forall>i<ng. \<forall>j<np. M ! i ! j = iou_of (concat gt) (concat pred)
                           (instance_labels (concat gt) ! i) (instance_labels (concat pred) ! j)"
proof -
  show ne: "concat gt \<noteq> []" and len: "length (concat gt) = length (concat pred)"
    using assms iou_table_errors[of pred gt] by auto
  from iou_table_char[OF ne len] assms
  show c: "ng = length (instance_labels (concat gt))" "np = length (instance_labels (concat pred))"
    "is_matrix ng np M"
    "\<forall>i<ng. \<forall>j<np. M ! i ! j = iou_of (concat gt) (concat pred)
                           (instance_labels (concat gt) ! i) (instance_labels (concat pred) ! j)"
    by auto
  show "unit_entries M"
    by (rule unit_entries_matrix[OF c(3)]) (use c(4) iou_of_bounds in auto)
qed

lemma evaluate_counts_unfold:
  "iou_table gt pred = Inr (ng, np, M) \<Longrightarrow> count_tp solver ng np M th = Inr tp \<Longrightarrow>
   evaluate_counts solver gt pred th = Inr (int tp, int np - int tp, int ng - int tp)"
  by (simp add: evaluate_counts_def bind_e_def)


text \<open>
  The largest entry of the table is a single-precision number, so it exceeds the threshold
  itself whenever it exceeds the rounded threshold; and when it does not exceed the rounded
  threshold, no pair qualifies. Comparing the maximum with the threshold in double
  precision at line 358, as numpy did before version 2, therefore takes the branch at
  least as often and counts the same true positives.
\<close>

lemma branch_in_double_precision:
  assumes "iou_table gt pred = Inr (ng, np, M)" "0 < min ng np" "np_max (concat M) = Inr mx"
  shows "float32 th < mx \<Longrightarrow> th < mx"
    and "\<not> float32 th < mx \<Longrightarrow> qualifying_pairs M (float32 th) = {}"
proof -
  note t = iou_table_Inr[OF assms(1)]
  have pos: "0 < ng" "0 < np" using assms(2) by simp_all
  have "M ! 0 ! 0 \<in> {M ! i ! j | i j. i < ng \<and> j < np}" using pos by blast
  then have "M ! 0 ! 0 \<in> set (concat M)" by (simp only: matrix_entries[OF t(5)])
  then have ne: "concat M \<noteq> []" by (metis empty_iff empty_set)
  have "mx = Max (set (concat M))" using assms(3) np_max_Max[OF ne] by simp
  then have "mx \<in> set (concat M)" using ne by (metis List.finite_set Max_in set_empty)
  then obtain i j where ij: "i < ng" "j < np" "mx = M ! i ! j"
    unfolding matrix_entries[OF t(5)] by blast
  then have "\<exists>q. mx = float32 q" using t(7) by (auto simp: iou_of_def)
  then show "float32 th < mx \<Longrightarrow> th < mx" using float32_less_imp by blast
  obtain mx' where mx': "np_max (concat M) = Inr mx'"
    "mx' > float32 th \<longleftrightarrow> qualifying_pairs M (float32 th) \<noteq> {}"
    using np_max_threshold[OF t(5) pos] by blast
  then show "\<not> float32 th < mx \<Longrightarrow> qualifying_pairs M (float32 th) = {}"
    using assms(3) by simp
qed



text \<open>
  The stored IoU of 2 pixels out of 3 and the threshold 0.66666666 are the same
  single-precision number, so that pair does not count although 2/3 > 0.66666666.
\<close>

lemma rounding_example:
  "float32 (66666666/100000000) = 11184811/16777216 \<and>
   evaluate_counts linear_sum_assignment [[1, 1, 0]] [[1, 1, 1]] (66666666/100000000) = Inr (0, 1, 1) \<and>
   evaluate_counts linear_sum_assignment [[1, 1, 0, 2, 2, 2]] [[1, 1, 1, 2, 2, 2]]
     (66666666/100000000) = Inr (1, 1, 1)"
  by code_simp

lemma is_max_matching_size_self:
  assumes "finite E" "is_matching E"
  shows "is_max_matching_size E (card E)"
  unfolding is_max_matching_size_def
proof (intro conjI allI impI)
  show "\<exists>P\<subseteq>E. is_matching P \<and> card P = card E" using assms(2) by blast
next
  fix P assume "P \<subseteq> E \<and> is_matching P"
  then show "card P \<le> card E" using assms(1) by (simp add: card_mono)
qed

text \<open>
  C2. For gt_labels = [[1,1,0],[0,2,2],[0,2,2]], pred_labels = [[1,1,0],[0,0,2],[0,2,2]] and
  threshold 0.5 the IoU table is [[1, 0], [0, 3/4]], the counts are tp = 2, fp = 0, fn = 0,
  and precision = recall = accuracy = 1, for every solver that returns a minimum-cost
  assignment.
\<close>

theorem example_scenario:
  assumes "lsa_contract solver"
  shows "iou_table [[1,1,0],[0,2,2],[0,2,2]] [[1,1,0],[0,0,2],[0,2,2]] = Inr (2, 2, [[1, 0], [0, 3/4]]) \<and>
         evaluate_counts solver [[1,1,0],[0,2,2],[0,2,2]] [[1,1,0],[0,0,2],[0,2,2]] (1/2) = Inr (2, 0, 0) \<and>
         evaluate_with solver [[1,1,0],[0,2,2],[0,2,2]] [[1,1,0],[0,0,2],[0,2,2]] (1/2) = Inr (1, 1, 1)"
proof -
  let ?gt = "[[1,1,0],[0,2,2],[0,2,2::nat]]" and ?pred = "[[1,1,0],[0,0,2],[0,2,2::nat]]"
  let ?M = "[[1, 0], [0, 3/4 :: rat]]"
  have tab: "iou_table ?gt ?pred = Inr (2, 2, ?M)" by code_simp
  note t = iou_table_Inr[OF tab]
  obtain tp where tp: "count_tp solver 2 2 ?M (1/2) = Inr tp"
    "is_max_matching_size (qualifying_pairs ?M (1/2)) tp"
    using count_tp_max_matching[OF assms t(5,6), of "1/2"] unfolding float32_half by blast
  have q: "qualifying_pairs ?M (1/2) = {(0, 0), (1, 1)}"
    by (auto simp: qualifying_pairs_def less_Suc_eq nth_Cons')
  have "is_max_matching_size {(0::nat, 0::nat), (1, 1)} (card {(0::nat, 0::nat), (1, 1)})"
    by (rule is_max_matching_size_self) (auto simp: is_matching_def)
  moreover have "card {(0::nat, 0::nat), (1, 1)} = 2" by simp
  ultimately have "is_max_matching_size (qualifying_pairs ?M (1/2)) 2" by (simp only: q)
  then have "tp = 2" using tp(2) is_max_matching_size_unique by blast
  with evaluate_counts_unfold[OF tab tp(1)]
  have c: "evaluate_counts solver ?gt ?pred (1/2) = Inr (2, 0, 0)" by simp
  then have "evaluate_with solver ?gt ?pred (1/2) = Inr (1, 1, 1)"
    by (simp add: evaluate_with_def bind_e_def accuracy_of_def precision_of_def recall_of_def
        float64_one)
  with tab c show ?thesis by simp
qed

theorem example_scenario_witness:
  "iou_table [[1,1,0],[0,2,2],[0,2,2]] [[1,1,0],[0,0,2],[0,2,2]] = Inr (2, 2, [[1, 0], [0, 3/4]]) \<and>
   evaluate_counts linear_sum_assignment [[1,1,0],[0,2,2],[0,2,2]] [[1,1,0],[0,0,2],[0,2,2]] (1/2) = Inr (2, 0, 0) \<and>
   evaluate [[1,1,0],[0,2,2],[0,2,2]] [[1,1,0],[0,0,2],[0,2,2]] (1/2) = Inr (1, 1, 1)"
  using example_scenario[OF linear_sum_assignment_contract] by (simp only: evaluate_def)

text \<open>
  C9. Whenever num_matches is positive, and so whenever the assignment branch of evaluate
  is reached, the cost matrix has num_gt rows and num_pred columns, a solver that meets the
  contract returns exactly num_matches = min num_gt num_pred row indices and as many column
  indices, none used twice and all in range, and the assertion does not fail.
\<close>

theorem assignment_has_num_matches_pairs:
  assumes "lsa_contract solver"
    and "iou_table gt_labels pred_labels = Inr (num_gt, num_pred, iouMat)"
    and "0 < min num_gt num_pred"
  shows "is_matrix num_gt num_pred (cost_matrix iouMat th (min num_gt num_pred)) \<and>
         (case solver (cost_matrix iouMat th (min num_gt num_pred)) of (gt_ind, pred_ind) \<Rightarrow>
            min num_gt num_pred = length gt_ind \<and> length gt_ind = length pred_ind \<and>
            distinct gt_ind \<and> distinct pred_ind \<and>
            (\<forall>g \<in> set gt_ind. g < num_gt) \<and> (\<forall>p \<in> set pred_ind. p < num_pred)) \<and>
         count_tp solver num_gt num_pred iouMat th \<noteq> Inl AssertionError \<and>
         evaluate_with solver gt_labels pred_labels th \<noteq> Inl AssertionError"
proof -
  note t = iou_table_Inr[OF assms(2)]
  let ?C = "cost_matrix iouMat th (min num_gt num_pred)"
  have m: "is_matrix num_gt num_pred ?C" by (rule is_matrix_cost_matrix[OF t(5)])
  have "valid_assignment num_gt num_pred (solver ?C)"
    using assms(1,3) m unfolding lsa_contract_def by (metis min_less_iff_conj)
  moreover obtain gi pi where "solver ?C = (gi, pi)" by (cases "solver ?C")
  ultimately have v: "case solver ?C of (gt_ind, pred_ind) \<Rightarrow>
            min num_gt num_pred = length gt_ind \<and> length gt_ind = length pred_ind \<and>
            distinct gt_ind \<and> distinct pred_ind \<and>
            (\<forall>g \<in> set gt_ind. g < num_gt) \<and> (\<forall>p \<in> set pred_ind. p < num_pred)"
    by (simp add: valid_assignment_def)
  obtain tp where tp: "count_tp solver num_gt num_pred iouMat th = Inr tp"
    using count_tp_max_matching[OF assms(1) t(5,6)] by blast
  have c: "count_tp solver num_gt num_pred iouMat th \<noteq> Inl AssertionError"
    using tp by simp
  have e: "evaluate_with solver gt_labels pred_labels th \<noteq> Inl AssertionError"
    using evaluate_counts_unfold[OF assms(2) tp]
    by (simp add: evaluate_with_def bind_e_def accuracy_of_def)
  show ?thesis by (intro conjI) (rule m, rule v, rule c, rule e)
qed

theorem assignment_has_num_matches_pairs_witness:
  "is_matrix 2 1 (cost_matrix [[1/2], [1/2]] (2/5) (min 2 1)) \<and>
   (case linear_sum_assignment (cost_matrix [[1/2], [1/2]] (2/5) (min 2 1)) of (gt_ind, pred_ind) \<Rightarrow>
      min 2 1 = length gt_ind \<and> length gt_ind = length pred_ind \<and>
      distinct gt_ind \<and> distinct pred_ind \<and>
      (\<forall>g \<in> set gt_ind. g < 2) \<and> (\<forall>p \<in> set pred_ind. p < 1)) \<and>
   count_tp linear_sum_assignment 2 1 [[1/2], [1/2]] (2/5) \<noteq> Inl AssertionError \<and>
   evaluate_with linear_sum_assignment [[4, 4, 7, 7]] [[9, 9, 9, 9]] (2/5) \<noteq> Inl AssertionError"
proof -
  have h1: "iou_table [[4, 4, 7, 7]] [[9, 9, 9, 9]] = Inr (2, 1, [[1/2], [1/2]])"
    by code_simp
  have h2: "0 < min (2::nat) 1" by simp
  show ?thesis
    by (rule assignment_has_num_matches_pairs[OF linear_sum_assignment_contract h1 h2])
qed

section \<open>Matchings on the original labels\<close>

lemma matching_image:
  assumes "inj_on f A" "inj_on g B" "P \<subseteq> A \<times> B"
  shows "is_matching (map_prod f g ` P) \<longleftrightarrow> is_matching P"
    and "card (map_prod f g ` P) = card P"
proof -
  have inj: "inj_on (map_prod f g) P"
    using inj_on_subset[OF map_prod_inj_on[OF assms(1,2)] assms(3)] .
  show "card (map_prod f g ` P) = card P" by (rule card_image[OF inj])
  have fs: "\<And>p q. p \<in> P \<Longrightarrow> q \<in> P \<Longrightarrow> f (fst p) = f (fst q) \<longleftrightarrow> fst p = fst q"
    using assms(1,3) by (metis (no_types) inj_onD mem_Times_iff subsetD)
  have gs: "\<And>p q. p \<in> P \<Longrightarrow> q \<in> P \<Longrightarrow> g (snd p) = g (snd q) \<longleftrightarrow> snd p = snd q"
    using assms(2,3) by (metis (no_types) inj_onD mem_Times_iff subsetD)
  have eq: "\<And>p q. p \<in> P \<Longrightarrow> q \<in> P \<Longrightarrow> map_prod f g p = map_prod f g q \<longleftrightarrow> p = q"
    using inj by (auto simp: inj_on_def)
  have "inj_on fst (map_prod f g ` P) \<longleftrightarrow> inj_on fst P"
    unfolding inj_on_def using fs eq by (auto simp: fst_map_prod)
  moreover have "inj_on snd (map_prod f g ` P) \<longleftrightarrow> inj_on snd P"
    unfolding inj_on_def using gs eq by (auto simp: snd_map_prod)
  ultimately show "is_matching (map_prod f g ` P) \<longleftrightarrow> is_matching P"
    by (simp add: is_matching_def)
qed

lemma max_matching_image:
  assumes "inj_on f A" "inj_on g B" "E \<subseteq> A \<times> B"
  shows "is_max_matching_size (map_prod f g ` E) k \<longleftrightarrow> is_max_matching_size E k"
proof -
  let ?h = "map_prod f g"
  have fwd: "\<And>P. P \<subseteq> E \<Longrightarrow> ?h ` P \<subseteq> ?h ` E \<and> (is_matching (?h ` P) \<longleftrightarrow> is_matching P) \<and>
      card (?h ` P) = card P"
    using matching_image[OF assms(1,2)] assms(3) by (meson image_mono subset_trans)
  have bwd: "\<And>Q. Q \<subseteq> ?h ` E \<Longrightarrow> \<exists>P. P \<subseteq> E \<and> Q = ?h ` P"
    by (meson subset_imageE)
  show ?thesis
    unfolding is_max_matching_size_def
  proof (intro iffI conjI allI impI)
    assume h: "(\<exists>P\<subseteq>?h ` E. is_matching P \<and> card P = k) \<and>
               (\<forall>P. P \<subseteq> ?h ` E \<and> is_matching P \<longrightarrow> card P \<le> k)"
    then obtain Q where "Q \<subseteq> ?h ` E" "is_matching Q" "card Q = k" by blast
    with bwd fwd show "\<exists>P\<subseteq>E. is_matching P \<and> card P = k" by metis
    fix P assume "P \<subseteq> E \<and> is_matching P"
    with fwd h show "card P \<le> k" by metis
  next
    assume h: "(\<exists>P\<subseteq>E. is_matching P \<and> card P = k) \<and>
               (\<forall>P. P \<subseteq> E \<and> is_matching P \<longrightarrow> card P \<le> k)"
    then obtain P where "P \<subseteq> E" "is_matching P" "card P = k" by blast
    with fwd show "\<exists>Q\<subseteq>?h ` E. is_matching Q \<and> card Q = k" by metis
    fix Q assume "Q \<subseteq> ?h ` E \<and> is_matching Q"
    with bwd fwd h show "card Q \<le> k" by metis
  qed
qed

lemma index_of_inj: "inj_on (index_of L) (set L)"
  by (rule inj_onI) (metis nth_index_of)

lemma qualifying_pairs_labels:
  assumes "iou_table gt pred = Inr (ng, np, M)"
  shows "qualifying_pairs M th =
         map_prod (index_of (instance_labels (concat gt))) (index_of (instance_labels (concat pred)))
           ` label_pairs (concat gt) (concat pred) th"
proof -
  note t = iou_table_Inr[OF assms]
  define Lg Lp where "Lg = instance_labels (concat gt)" and "Lp = instance_labels (concat pred)"
  have ng: "ng = length Lg" and np: "np = length Lp" using t(3,4) by (simp_all add: Lg_def Lp_def)
  have setg: "set Lg = set (concat gt) - {0}" and setp: "set Lp = set (concat pred) - {0}"
    by (simp_all add: Lg_def Lp_def set_instance_labels)
  have dg: "distinct Lg" and dp: "distinct Lp" by (simp_all add: Lg_def Lp_def distinct_instance_labels)
  have entry: "\<And>i j. i < ng \<Longrightarrow> j < np \<Longrightarrow> M ! i ! j = iou_of (concat gt) (concat pred) (Lg ! i) (Lp ! j)"
    using t(7) by (simp add: Lg_def Lp_def)
  have "qualifying_pairs M th = map_prod (index_of Lg) (index_of Lp) ` label_pairs (concat gt) (concat pred) th"
  proof (intro equalityI subsetI)
    fix x assume "x \<in> qualifying_pairs M th"
    then obtain i j where x: "x = (i, j)" "i < ng" "j < np" "M ! i ! j > th"
      unfolding qualifying_pairs_matrix[OF t(5)] by blast
    have "Lg ! i \<in> set Lg" "Lp ! j \<in> set Lp" using x ng np by simp_all
    then have "(Lg ! i, Lp ! j) \<in> label_pairs (concat gt) (concat pred) th"
      using x entry[of i j] setg setp by (simp add: label_pairs_def)
    moreover have "index_of Lg (Lg ! i) = i" "index_of Lp (Lp ! j) = j"
      using x ng np dg dp by (simp_all add: index_of_nth)
    ultimately show "x \<in> map_prod (index_of Lg) (index_of Lp) ` label_pairs (concat gt) (concat pred) th"
      using x(1) by force
  next
    fix x assume "x \<in> map_prod (index_of Lg) (index_of Lp) ` label_pairs (concat gt) (concat pred) th"
    then obtain a b where ab: "x = (index_of Lg a, index_of Lp b)"
      "(a, b) \<in> label_pairs (concat gt) (concat pred) th" by auto
    then have mem: "a \<in> set Lg" "b \<in> set Lp" and above: "iou_of (concat gt) (concat pred) a b > th"
      using setg setp by (auto simp: label_pairs_def)
    have i: "index_of Lg a < ng" "index_of Lp b < np" using mem ng np by (simp_all add: index_of_less)
    have "M ! index_of Lg a ! index_of Lp b = iou_of (concat gt) (concat pred) a b"
      using entry[OF i] mem by (simp add: nth_index_of)
    then show "x \<in> qualifying_pairs M th"
      unfolding qualifying_pairs_matrix[OF t(5)] using ab(1) i above by simp
  qed
  then show ?thesis by (simp add: Lg_def Lp_def)
qed

lemma label_pairs_subset:
  "label_pairs xs ys th \<subseteq> set (instance_labels xs) \<times> set (instance_labels ys)"
  by (auto simp: label_pairs_def set_instance_labels)

lemma length_instance_labels: "length (instance_labels xs) = card (set xs - {0})"
  using distinct_card[OF distinct_instance_labels, of xs] by (simp add: set_instance_labels)

lemma evaluate_counts_char:
  assumes sol: "lsa_contract solver"
    and ne: "concat gt \<noteq> []" and len: "length (concat gt) = length (concat pred)"
  shows "\<exists>tp. evaluate_counts solver gt pred th =
            Inr (int tp, int (card (set (concat pred) - {0})) - int tp,
                 int (card (set (concat gt) - {0})) - int tp) \<and>
          tp \<le> min (card (set (concat gt) - {0})) (card (set (concat pred) - {0})) \<and>
          is_max_matching_size (label_pairs (concat gt) (concat pred) (float32 th)) tp"
proof -
  obtain M where tab: "iou_table gt pred =
            Inr (length (instance_labels (concat gt)), length (instance_labels (concat pred)), M)"
    using iou_table_char[OF ne len] by blast
  note t = iou_table_Inr[OF tab]
  obtain tp where tp: "count_tp solver (length (instance_labels (concat gt)))
       (length (instance_labels (concat pred))) M th = Inr tp"
    "tp \<le> min (length (instance_labels (concat gt))) (length (instance_labels (concat pred)))"
    "is_max_matching_size (qualifying_pairs M (float32 th)) tp"
    using count_tp_max_matching[OF sol t(5,6)] by blast
  have "is_max_matching_size (label_pairs (concat gt) (concat pred) (float32 th)) tp"
    using tp(3) unfolding qualifying_pairs_labels[OF tab]
    by (simp only: max_matching_image[OF index_of_inj index_of_inj label_pairs_subset])
  with evaluate_counts_unfold[OF tab tp(1)] tp(2) show ?thesis
    by (auto simp: length_instance_labels)
qed

section \<open>Threshold, counts and ratios\<close>

lemma label_pairs_mono: "th1 \<le> th2 \<Longrightarrow> label_pairs xs ys th2 \<subseteq> label_pairs xs ys th1"
  by (auto simp: label_pairs_def)

lemma max_matching_mono:
  assumes "is_max_matching_size E1 k1" "is_max_matching_size E2 k2" "E2 \<subseteq> E1"
  shows "k2 \<le> k1"
proof -
  obtain P where "P \<subseteq> E2" "is_matching P" "card P = k2"
    using assms(2) unfolding is_max_matching_size_def by blast
  moreover then have "P \<subseteq> E1" using assms(3) by blast
  ultimately show ?thesis using assms(1) unfolding is_max_matching_size_def by blast
qed

text \<open>
  C4. For two images with the same positive number of pixels and thresholds th1 \<le> th2,
  evaluate computes a true-positive count at both thresholds, and the count at th2 is at
  most the count at th1.
\<close>

theorem tp_monotone_in_threshold:
  assumes "lsa_contract solver"
    and "concat gt_labels \<noteq> []" and "length (concat gt_labels) = length (concat pred_labels)"
    and "th1 \<le> th2"
  shows "\<exists>tp1 fp1 fn1 tp2 fp2 fn2.
           evaluate_counts solver gt_labels pred_labels th1 = Inr (tp1, fp1, fn1) \<and>
           evaluate_counts solver gt_labels pred_labels th2 = Inr (tp2, fp2, fn2) \<and>
           tp2 \<le> tp1"
proof -
  obtain tp1 where t1: "evaluate_counts solver gt_labels pred_labels th1 =
            Inr (int tp1, int (card (set (concat pred_labels) - {0})) - int tp1,
                 int (card (set (concat gt_labels) - {0})) - int tp1)"
    "is_max_matching_size (label_pairs (concat gt_labels) (concat pred_labels) (float32 th1)) tp1"
    using evaluate_counts_char[OF assms(1,2,3), of th1] by blast
  obtain tp2 where t2: "evaluate_counts solver gt_labels pred_labels th2 =
            Inr (int tp2, int (card (set (concat pred_labels) - {0})) - int tp2,
                 int (card (set (concat gt_labels) - {0})) - int tp2)"
    "is_max_matching_size (label_pairs (concat gt_labels) (concat pred_labels) (float32 th2)) tp2"
    using evaluate_counts_char[OF assms(1,2,3), of th2] by blast
  have "tp2 \<le> tp1"
    by (rule max_matching_mono[OF t1(2) t2(2) label_pairs_mono[OF float32_mono[OF assms(4)]]])
  then have "int tp2 \<le> int tp1" by simp
  with t1(1) t2(1) show ?thesis by blast
qed

theorem tp_monotone_in_threshold_witness:
  "\<exists>tp1 fp1 fn1 tp2 fp2 fn2.
     evaluate_counts linear_sum_assignment [[1, 1, 2, 2]] [[1, 1, 1, 2]] (2/5) = Inr (tp1, fp1, fn1) \<and>
     evaluate_counts linear_sum_assignment [[1, 1, 2, 2]] [[1, 1, 1, 2]] (3/5) = Inr (tp2, fp2, fn2) \<and>
     tp2 \<le> tp1"
proof -
  have h1: "concat [[1, 1, 2, 2::nat]] \<noteq> []" by simp
  have h2: "length (concat [[1, 1, 2, 2::nat]]) = length (concat [[1, 1, 1, 2::nat]])" by simp
  have h3: "(2/5::rat) \<le> 3/5" by simp
  show ?thesis
    by (rule tp_monotone_in_threshold[OF linear_sum_assignment_contract h1 h2 h3])
qed

text \<open>
  C10. For two images with the same positive number of pixels and every threshold,
  evaluate computes counts with 0 \<le> tp \<le> min num_gt num_pred, fp = num_pred - tp \<ge> 0 and
  fn = num_gt - tp \<ge> 0; the guarded quotients for precision and recall lie between 0 and 1,
  and precision (recall) is 0 when there is no predicted (ground-truth) instance. evaluate
  returns exactly these two quotients, together with the accuracy, unless neither image
  has an instance; so whatever precision and recall it returns lie between 0 and 1.
\<close>

theorem counts_and_ratios_bounded:
  assumes "lsa_contract solver"
    and "concat gt_labels \<noteq> []" and "length (concat gt_labels) = length (concat pred_labels)"
  shows "\<exists>num_gt num_pred iouMat tp fp fn.
           iou_table gt_labels pred_labels = Inr (num_gt, num_pred, iouMat) \<and>
           evaluate_counts solver gt_labels pred_labels th = Inr (tp, fp, fn) \<and>
           0 \<le> tp \<and> tp \<le> int (min num_gt num_pred) \<and>
           fp = int num_pred - tp \<and> 0 \<le> fp \<and> fn = int num_gt - tp \<and> 0 \<le> fn \<and>
           0 \<le> precision_of tp fp \<and> precision_of tp fp \<le> 1 \<and>
           0 \<le> recall_of tp fn \<and> recall_of tp fn \<le> 1 \<and>
           (num_pred = 0 \<longrightarrow> precision_of tp fp = 0) \<and>
           (num_gt = 0 \<longrightarrow> recall_of tp fn = 0) \<and>
           evaluate_with solver gt_labels pred_labels th =
             (if num_gt = 0 \<and> num_pred = 0 then Inl ZeroDivisionError
              else Inr (precision_of tp fp, recall_of tp fn,
                        float64 (of_int tp / of_int (tp + fp + fn)))) \<and>
           (\<forall>p r a. evaluate_with solver gt_labels pred_labels th = Inr (p, r, a) \<longrightarrow>
              p = precision_of tp fp \<and> r = recall_of tp fn \<and>
              0 \<le> p \<and> p \<le> 1 \<and> 0 \<le> r \<and> r \<le> 1)"
proof -
  obtain M where tab: "iou_table gt_labels pred_labels =
      Inr (length (instance_labels (concat gt_labels)), length (instance_labels (concat pred_labels)), M)"
    using iou_table_char[OF assms(2,3)] by blast
  define ng np where "ng = length (instance_labels (concat gt_labels))"
    and "np = length (instance_labels (concat pred_labels))"
  note t = iou_table_Inr[OF tab]
  obtain tp where tp: "count_tp solver ng np M th = Inr tp" "tp \<le> min ng np"
    using count_tp_max_matching[OF assms(1) t(5,6)] unfolding ng_def np_def by blast
  have c: "evaluate_counts solver gt_labels pred_labels th = Inr (int tp, int np - int tp, int ng - int tp)"
    using evaluate_counts_unfold[OF tab] tp(1) by (simp add: ng_def np_def)
  have le: "tp \<le> ng" "tp \<le> np" using tp(2) by simp_all
  have p: "precision_of (int tp) (int np - int tp) = float64 (of_nat tp / of_int (max 1 (int np)))"
    by (simp add: precision_of_def)
  have r: "recall_of (int tp) (int ng - int tp) = float64 (of_nat tp / of_int (max 1 (int ng)))"
    by (simp add: recall_of_def)
  have exact: "\<And>a b::nat. a \<le> b \<Longrightarrow> 0 \<le> (of_nat a :: rat) / of_int (max 1 (int b)) \<and>
      (of_nat a :: rat) / of_int (max 1 (int b)) \<le> 1 \<and> (b = 0 \<longrightarrow> (of_nat a :: rat) / of_int (max 1 (int b)) = 0)"
  proof -
    fix a b :: nat assume ab: "a \<le> b"
    have pos: "(0::rat) < of_int (max 1 (int b))" by simp
    have "(of_nat a :: rat) \<le> of_int (max 1 (int b))"
      using ab by (metis max.coboundedI2 of_int_of_nat_eq of_nat_le_iff of_int_le_iff)
    then have "(of_nat a :: rat) / of_int (max 1 (int b)) \<le> 1" using pos by (simp add: divide_le_eq_1)
    moreover have "0 \<le> (of_nat a :: rat) / of_int (max 1 (int b))" using pos by simp
    moreover have "b = 0 \<longrightarrow> (of_nat a :: rat) / of_int (max 1 (int b)) = 0" using ab by simp
    ultimately show "0 \<le> (of_nat a :: rat) / of_int (max 1 (int b)) \<and>
      (of_nat a :: rat) / of_int (max 1 (int b)) \<le> 1 \<and> (b = 0 \<longrightarrow> (of_nat a :: rat) / of_int (max 1 (int b)) = 0)"
      by blast
  qed
  have div: "0 \<le> float64 ((of_nat a :: rat) / of_int (max 1 (int b))) \<and>
      float64 ((of_nat a :: rat) / of_int (max 1 (int b))) \<le> 1 \<and>
      (b = 0 \<longrightarrow> float64 ((of_nat a :: rat) / of_int (max 1 (int b))) = 0)" if "a \<le> b" for a b :: nat
    using exact[OF that] float64_mono[of 0 "(of_nat a :: rat) / of_int (max 1 (int b))"]
      float64_mono[of "(of_nat a :: rat) / of_int (max 1 (int b))" 1]
    by (auto simp: float64_zero float64_one)
  have zero: "int tp + (int np - int tp) + (int ng - int tp) = 0 \<longleftrightarrow> ng = 0 \<and> np = 0"
    using le by linarith
  have ew: "evaluate_with solver gt_labels pred_labels th =
      (if ng = 0 \<and> np = 0 then Inl ZeroDivisionError
       else Inr (precision_of (int tp) (int np - int tp), recall_of (int tp) (int ng - int tp),
                 float64 (of_int (int tp) / of_int (int tp + (int np - int tp) + (int ng - int tp)))))"
    unfolding evaluate_with_def c bind_e_def accuracy_of_def using zero by simp
  have bounds: "0 \<le> precision_of (int tp) (int np - int tp)" "precision_of (int tp) (int np - int tp) \<le> 1"
    "0 \<le> recall_of (int tp) (int ng - int tp)" "recall_of (int tp) (int ng - int tp) \<le> 1"
    unfolding p r using div[OF le(1)] div[OF le(2)] by blast+
  have ret: "\<forall>p r a. evaluate_with solver gt_labels pred_labels th = Inr (p, r, a) \<longrightarrow>
      p = precision_of (int tp) (int np - int tp) \<and> r = recall_of (int tp) (int ng - int tp) \<and>
      0 \<le> p \<and> p \<le> 1 \<and> 0 \<le> r \<and> r \<le> 1"
    unfolding ew using bounds by (auto split: if_splits)
  have "iou_table gt_labels pred_labels = Inr (ng, np, M) \<and>
           evaluate_counts solver gt_labels pred_labels th = Inr (int tp, int np - int tp, int ng - int tp) \<and>
           0 \<le> int tp \<and> int tp \<le> int (min ng np) \<and>
           int np - int tp = int np - int tp \<and> 0 \<le> int np - int tp \<and>
           int ng - int tp = int ng - int tp \<and> 0 \<le> int ng - int tp \<and>
           0 \<le> precision_of (int tp) (int np - int tp) \<and> precision_of (int tp) (int np - int tp) \<le> 1 \<and>
           0 \<le> recall_of (int tp) (int ng - int tp) \<and> recall_of (int tp) (int ng - int tp) \<le> 1 \<and>
           (np = 0 \<longrightarrow> precision_of (int tp) (int np - int tp) = 0) \<and>
           (ng = 0 \<longrightarrow> recall_of (int tp) (int ng - int tp) = 0)"
    unfolding p r using tab c le tp(2) div[OF le(1)] div[OF le(2)]
    by (simp add: ng_def np_def)
  with ew ret show ?thesis by blast
qed

theorem counts_and_ratios_bounded_witness:
  "iou_table [[3, 3], [0, 8]] [[0, 0], [0, 0]] = Inr (2, 0, [[], []]) \<and>
   evaluate_counts linear_sum_assignment [[3, 3], [0, 8]] [[0, 0], [0, 0]] (1/2) = Inr (0, 0, 2) \<and>
   (0::int) \<le> int (min 2 0) \<and>
   0 \<le> precision_of 0 0 \<and> precision_of 0 0 \<le> 1 \<and> precision_of 0 0 = 0 \<and>
   0 \<le> recall_of 0 2 \<and> recall_of 0 2 \<le> 1 \<and>
   evaluate [[3, 3], [0, 8]] [[0, 0], [0, 0]] (1/2) = Inr (precision_of 0 0, recall_of 0 2, 0) \<and>
   evaluate [[3, 3], [0, 8]] [[0, 0], [0, 0]] (1/2) = Inr (0, 0, 0)"
proof -
  have h1: "concat [[3, 3], [0, 8::nat]] \<noteq> []" by simp
  have h2: "length (concat [[3, 3], [0, 8::nat]]) = length (concat [[0, 0], [0, 0::nat]])" by simp
  have t: "iou_table [[3, 3], [0, 8]] [[0, 0], [0, 0]] = Inr (2, 0, [[], []])" by code_simp
  have e: "evaluate_counts linear_sum_assignment [[3, 3], [0, 8]] [[0, 0], [0, 0]] (1/2) = Inr (0, 0, 2)"
    by code_simp
  obtain num_gt num_pred iouMat tp fp fn where w:
    "iou_table [[3, 3], [0, 8]] [[0, 0], [0, 0]] = Inr (num_gt, num_pred, iouMat)"
    "evaluate_counts linear_sum_assignment [[3, 3], [0, 8]] [[0, 0], [0, 0]] (1/2) = Inr (tp, fp, fn)"
    "0 \<le> tp" "tp \<le> int (min num_gt num_pred)"
    "0 \<le> precision_of tp fp" "precision_of tp fp \<le> 1"
    "0 \<le> recall_of tp fn" "recall_of tp fn \<le> 1"
    "num_pred = 0 \<longrightarrow> precision_of tp fp = 0"
    "evaluate_with linear_sum_assignment [[3, 3], [0, 8]] [[0, 0], [0, 0]] (1/2) =
       (if num_gt = 0 \<and> num_pred = 0 then Inl ZeroDivisionError
        else Inr (precision_of tp fp, recall_of tp fn,
                  float64 (of_int tp / of_int (tp + fp + fn))))"
    using counts_and_ratios_bounded[OF linear_sum_assignment_contract h1 h2, of "1/2"] by blast
  from w(1,2) t e have v: "num_gt = 2" "num_pred = 0" "tp = 0" "fp = 0" "fn = 2" by simp_all
  have r: "recall_of 0 2 = 0" "float64 0 = 0" by (simp_all add: recall_of_def float64_zero)
  show ?thesis using w(3-10) t e unfolding v evaluate_def by (simp add: r)
qed

text \<open>
  C7 (the code departs from it). On two all-background images evaluate computes
  tp = fp = fn = 0 and then divides 0 by 0 in the accuracy: it raises ZeroDivisionError,
  whatever the solver and the threshold.
\<close>

theorem all_background_raises:
  "evaluate_counts solver [[0, 0], [0, 0]] [[0, 0], [0, 0]] th = Inr (0, 0, 0) \<and>
   evaluate_with solver [[0, 0], [0, 0]] [[0, 0], [0, 0]] th = Inl ZeroDivisionError"
proof -
  have t: "iou_table [[0, 0], [0, 0]] [[0, 0], [0, 0]] = Inr (0, 0, [])" by code_simp
  have c: "count_tp solver 0 0 [] th = Inr 0" by (simp add: count_tp_def)
  have e: "evaluate_counts solver [[0, 0], [0, 0]] [[0, 0], [0, 0]] th = Inr (0, 0, 0)"
    using evaluate_counts_unfold[OF t c] by simp
  then show ?thesis by (simp add: evaluate_with_def bind_e_def accuracy_of_def)
qed

lemma iou_table_flat: "iou_table gt pred = iou_table [concat gt] [concat pred]"
  by (simp add: iou_table_def relabel_sequential_def bind_e_def map_concat[symmetric]
      cong: sum.case_cong)

lemma evaluate_with_flat:
  "evaluate_with solver gt pred th = evaluate_with solver [concat gt] [concat pred] th"
  by (simp add: evaluate_with_def evaluate_counts_def iou_table_flat[of gt pred])

lemma evaluate_with_size_mismatch:
  "length (concat gt) \<noteq> length (concat pred) \<Longrightarrow> evaluate_with solver gt pred th = Inl ValueError"
  by (simp add: evaluate_with_def evaluate_counts_def iou_table_errors bind_e_def)

lemma evaluate_with_returns:
  assumes "lsa_contract solver" "length (concat gt) = length (concat pred)"
    and "v \<in> set (concat gt) \<union> set (concat pred)" "v \<noteq> 0"
  shows "\<exists>r. evaluate_with solver gt pred th = Inr r"
proof -
  have ne: "concat gt \<noteq> []" using assms(2,3) by (cases "concat gt") auto
  obtain tp where tp: "evaluate_counts solver gt pred th =
            Inr (int tp, int (card (set (concat pred) - {0})) - int tp,
                 int (card (set (concat gt) - {0})) - int tp)"
    "tp \<le> min (card (set (concat gt) - {0})) (card (set (concat pred) - {0}))"
    using evaluate_counts_char[OF assms(1) ne assms(2)] by blast
  have "v \<in> set (concat gt) - {0} \<or> v \<in> set (concat pred) - {0}" using assms(3,4) by auto
  then have "0 < card (set (concat gt) - {0}) \<or> 0 < card (set (concat pred) - {0})"
    by (metis List.finite_set card_gt_0_iff empty_iff finite_Diff)
  then have "int tp + (int (card (set (concat pred) - {0})) - int tp) +
      (int (card (set (concat gt) - {0})) - int tp) \<noteq> 0" using tp(2) by linarith
  then show ?thesis using tp(1)
    by (simp add: evaluate_with_def bind_e_def accuracy_of_def)
qed

text \<open>
  Two images of different shapes with equally many pixels are evaluated without any error.
\<close>

theorem evaluate_shape_counterexample:
  "np_shape [[1, 1::nat]] \<noteq> np_shape [[1], [1::nat]] \<and>
   evaluate [[1, 1]] [[1], [1]] (1/2) = Inr (1, 1, 1)"
proof -
  have "evaluate [[1, 1]] [[1], [1]] (1/2) = Inr (1, 1, 1)" by code_simp
  then show ?thesis by (simp add: np_shape_def)
qed

text \<open>
  C8, amended. evaluate has no shape check. It raises ValueError whenever the two images
  differ in their number of pixels; it reads both images only as flattened pixel sequences,
  so images of different shapes with equally many pixels are compared without error; and
  for images with equally many pixels of which at least one has an instance, it returns a
  result.
\<close>

theorem evaluate_size_check:
  "(length (concat gt_labels) \<noteq> length (concat pred_labels) \<longrightarrow>
      evaluate_with solver gt_labels pred_labels th = Inl ValueError) \<and>
   evaluate_with solver gt_labels pred_labels th =
     evaluate_with solver [concat gt_labels] [concat pred_labels] th \<and>
   (lsa_contract solver \<and> length (concat gt_labels) = length (concat pred_labels) \<and>
    (\<exists>v \<in> set (concat gt_labels) \<union> set (concat pred_labels). v \<noteq> 0) \<longrightarrow>
      (\<exists>r. evaluate_with solver gt_labels pred_labels th = Inr r))"
  using evaluate_with_size_mismatch[of gt_labels pred_labels solver th]
    evaluate_with_flat[of solver gt_labels pred_labels th]
    evaluate_with_returns[of solver gt_labels pred_labels _ th]
  by blast

theorem evaluate_size_check_witness:
  "evaluate [[1, 2, 3]] [[1, 2]] (1/2) = Inl ValueError \<and>
   evaluate [[1, 2], [3, 0]] [[1, 2, 3, 0]] (1/2) = evaluate [[1, 2, 3, 0]] [[1, 2, 3, 0]] (1/2) \<and>
   (\<exists>r. evaluate [[1, 2], [3, 0]] [[1, 2, 3, 0]] (1/2) = Inr r)"
proof -
  have a: "length (concat [[1, 2, 3::nat]]) \<noteq> length (concat [[1, 2::nat]])" by simp
  have b: "length (concat [[1, 2], [3, 0::nat]]) = length (concat [[1, 2, 3, 0::nat]])" by simp
  have c: "\<exists>v \<in> set (concat [[1, 2], [3, 0::nat]]) \<union> set (concat [[1, 2, 3, 0::nat]]). v \<noteq> 0"
    by simp
  have f: "concat [[1, 2], [3, 0::nat]] = [1, 2, 3, 0]" "concat [[1, 2, 3, 0::nat]] = [1, 2, 3, 0]"
    by simp_all
  show ?thesis
    unfolding evaluate_def
    using evaluate_size_check[of "[[1, 2, 3]]" "[[1, 2]]" linear_sum_assignment "1/2"]
      evaluate_size_check[of "[[1, 2], [3, 0]]" "[[1, 2, 3, 0]]" linear_sum_assignment "1/2"]
      a b c linear_sum_assignment_contract
    unfolding f by blast
qed

section \<open>An image against itself\<close>

lemma count_list_zip_same: "count_list (zip xs xs) (a, a) = count_list xs a"
  by (induction xs) auto

lemma set_zip_same: "set (zip xs xs) = (\<lambda>a. (a, a)) ` set xs"
  by (induction xs) auto

lemma iou_of_self:
  "iou_of xs xs a b = (if a = b \<and> a \<in> set xs then 1 else 0)"
proof (cases "a = b \<and> a \<in> set xs")
  case True
  then have ab: "b = a" and mem: "a \<in> set xs" by blast+
  have "0 < count_list xs a" using mem count_list_0_iff[of xs a] by auto
  then show ?thesis using mem
    by (simp add: ab iou_of_def count_list_zip_same float32_one float64_one)
next
  case False
  then have "(b, a) \<notin> set (zip xs xs)" by (auto simp: set_zip_same)
  then show ?thesis using False iou_of_absent by simp
qed

lemma label_pairs_self:
  assumes "0 \<le> th" "th < 1"
  shows "label_pairs xs xs th = (\<lambda>a. (a, a)) ` (set xs - {0})"
  using assms by (auto simp: label_pairs_def iou_of_self)

lemma is_matching_diagonal: "is_matching ((\<lambda>a. (a, a)) ` S)"
  by (auto simp: is_matching_def inj_on_def)

lemma self_match_counts:
  assumes "lsa_contract solver" "concat L \<noteq> []" "0 \<le> float32 th" "float32 th < 1"
  shows "evaluate_counts solver L L th = Inr (int (card (set (concat L) - {0})), 0, 0)"
proof -
  let ?S = "set (concat L) - {0}"
  obtain tp where tp: "evaluate_counts solver L L th =
      Inr (int tp, int (card ?S) - int tp, int (card ?S) - int tp)"
    "is_max_matching_size (label_pairs (concat L) (concat L) (float32 th)) tp"
    using evaluate_counts_char[OF assms(1,2) refl, of th] by blast
  have "is_max_matching_size ((\<lambda>a. (a, a)) ` ?S) (card ((\<lambda>a. (a, a)) ` ?S))"
    by (rule is_max_matching_size_self) (simp_all add: is_matching_diagonal)
  moreover have "card ((\<lambda>a. (a, a)) ` ?S) = card ?S"
    by (rule card_image) (simp add: inj_on_def)
  ultimately have "is_max_matching_size (label_pairs (concat L) (concat L) (float32 th)) (card ?S)"
    by (simp only: label_pairs_self[OF assms(3,4)])
  then have "tp = card ?S" using tp(2) is_max_matching_size_unique by blast
  with tp(1) show ?thesis by simp
qed

text \<open>
  On an image without instances the statement about an image against itself fails: the
  counts are all 0, the guarded precision and recall are 0, and evaluate raises.
\<close>

theorem perfect_match_counterexample:
  "card (set (concat [[0::nat]]) - {0}) = 0 \<and>
   evaluate_counts linear_sum_assignment [[0]] [[0]] (1/2) = Inr (0, 0, 0) \<and>
   precision_of 0 0 = 0 \<and> recall_of 0 0 = 0 \<and>
   evaluate [[0]] [[0]] (1/2) = Inl ZeroDivisionError"
proof -
  have "evaluate_counts linear_sum_assignment [[0]] [[0]] (1/2) = Inr (0, 0, 0)" by code_simp
  moreover have "evaluate [[0]] [[0]] (1/2) = Inl ZeroDivisionError" by code_simp
  ultimately show ?thesis by (simp add: precision_of_def recall_of_def float64_zero)
qed

text \<open>
  C5, amended. For every label image L with k \<ge> 1 distinct non-zero instance labels,
  evaluate(L, L) at threshold 0.5 yields tp = k, fp = fn = 0 and
  precision = recall = accuracy = 1.
\<close>

theorem perfect_match:
  assumes "lsa_contract solver"
    and "k = card (set (concat L) - {0})" and "1 \<le> k"
  shows "evaluate_counts solver L L (1/2) = Inr (int k, 0, 0) \<and>
         evaluate_with solver L L (1/2) = Inr (1, 1, 1)"
proof -
  have "set (concat L) - {0} \<noteq> {}" using assms(2,3) by (metis card.empty not_one_le_zero)
  then have ne: "concat L \<noteq> []" by (metis Diff_empty Diff_insert0 empty_set insert_Diff insert_not_empty)
  have c: "evaluate_counts solver L L (1/2) = Inr (int k, 0, 0)"
    using self_match_counts[OF assms(1) ne, of "1/2"] assms(2) by (simp add: float32_half)
  have k: "(of_int (int k) :: rat) \<noteq> 0" "max 1 (int k) = int k" using assms(3) by simp_all
  have "evaluate_with solver L L (1/2) = Inr (1, 1, 1)"
    using k by (simp add: evaluate_with_def bind_e_def c accuracy_of_def precision_of_def recall_of_def
        float64_one)
  with c show ?thesis by simp
qed

theorem perfect_match_witness:
  "evaluate_counts linear_sum_assignment [[5, 5, 0], [9, 0, 2]] [[5, 5, 0], [9, 0, 2]] (1/2) = Inr (3, 0, 0) \<and>
   evaluate [[5, 5, 0], [9, 0, 2]] [[5, 5, 0], [9, 0, 2]] (1/2) = Inr (1, 1, 1)"
proof -
  have h1: "(3::nat) = card (set (concat [[5, 5, 0], [9, 0, 2::nat]]) - {0})" by code_simp
  have h2: "1 \<le> (3::nat)" by simp
  show ?thesis
    unfolding evaluate_def
    using perfect_match[OF linear_sum_assignment_contract h1 h2] by simp
qed

section \<open>Renaming the labels\<close>

lemma relabelled_nonzero:
  assumes "f 0 = 0" "inj_on f (insert 0 (set xs))" "a \<in> set xs"
  shows "f a = 0 \<longleftrightarrow> a = 0"
  using assms by (metis inj_onD insertCI)

lemma label_pairs_map:
  assumes "f 0 = 0" "inj_on f (insert 0 (set xs))" "g 0 = 0" "inj_on g (insert 0 (set ys))"
  shows "label_pairs (map f xs) (map g ys) th = map_prod f g ` label_pairs xs ys th"
proof -
  have iou: "iou_of (map f xs) (map g ys) (f a) (g b) = iou_of xs ys a b"
    if "a \<in> set xs" "b \<in> set ys" for a b
  proof (rule iou_of_map)
    show "inj_on f (insert a (set xs))" by (rule inj_on_subset[OF assms(2)]) (use that in auto)
    show "inj_on g (insert b (set ys))" by (rule inj_on_subset[OF assms(4)]) (use that in auto)
  qed
  show ?thesis
  proof (intro equalityI subsetI)
    fix x assume "x \<in> label_pairs (map f xs) (map g ys) th"
    then obtain a b where x: "x = (f a, g b)" "a \<in> set xs" "b \<in> set ys" "f a \<noteq> 0" "g b \<noteq> 0"
      "iou_of (map f xs) (map g ys) (f a) (g b) > th"
      by (auto simp: label_pairs_def)
    then have "(a, b) \<in> label_pairs xs ys th"
      using iou[of a b] relabelled_nonzero[OF assms(1,2)] relabelled_nonzero[OF assms(3,4)]
      by (simp add: label_pairs_def)
    then show "x \<in> map_prod f g ` label_pairs xs ys th" using x(1) by force
  next
    fix x assume "x \<in> map_prod f g ` label_pairs xs ys th"
    then obtain a b where x: "x = (f a, g b)" "a \<in> set xs" "b \<in> set ys" "a \<noteq> 0" "b \<noteq> 0"
      "iou_of xs ys a b > th"
      by (auto simp: label_pairs_def)
    moreover have "f a \<noteq> 0" "g b \<noteq> 0"
      using x relabelled_nonzero[OF assms(1,2), of a] relabelled_nonzero[OF assms(3,4), of b]
      by blast+
    ultimately show "x \<in> label_pairs (map f xs) (map g ys) th"
      using iou[of a b] by (simp add: label_pairs_def)
  qed
qed

lemma card_labels_map:
  assumes "f 0 = 0" "inj_on f (insert 0 (set xs))"
  shows "card (set (map f xs) - {0}) = card (set xs - {0})"
proof -
  have "set (map f xs) - {0} = f ` (set xs - {0})"
    using relabelled_nonzero[OF assms] by auto
  moreover have "inj_on f (set xs - {0})" by (rule inj_on_subset[OF assms(2)]) auto
  ultimately show ?thesis by (simp add: card_image)
qed

text \<open>
  C3. For every pair of label images, every threshold and every pair of remappings of the
  label values that keep 0 fixed and are injective on the labels of the image they are
  applied to, evaluate returns the same result (the same precision, recall and accuracy,
  or the same error) on the remapped images as on the originals.
\<close>

theorem relabel_invariance:
  assumes "lsa_contract solver"
    and "f 0 = 0" and "inj_on f (insert 0 (set (concat gt_labels)))"
    and "g 0 = 0" and "inj_on g (insert 0 (set (concat pred_labels)))"
  shows "evaluate_with solver (map (map f) gt_labels) (map (map g) pred_labels) th =
         evaluate_with solver gt_labels pred_labels th"
proof (cases "concat gt_labels \<noteq> [] \<and> length (concat gt_labels) = length (concat pred_labels)")
  case False
  then have e: "concat pred_labels = [] \<or> concat gt_labels = [] \<or>
      length (concat gt_labels) \<noteq> length (concat pred_labels)" by blast
  have c: "concat (map (map f) gt_labels) = map f (concat gt_labels)"
    "concat (map (map g) pred_labels) = map g (concat pred_labels)"
    by (simp_all add: map_concat)
  have e': "concat (map (map g) pred_labels) = [] \<or> concat (map (map f) gt_labels) = [] \<or>
      length (concat (map (map f) gt_labels)) \<noteq> length (concat (map (map g) pred_labels))"
    unfolding c using e by simp
  show ?thesis
    by (simp add: evaluate_with_def evaluate_counts_def iou_table_errors[OF e]
        iou_table_errors[OF e'])
next
  case True
  let ?xs = "concat gt_labels" and ?ys = "concat pred_labels"
  have c: "concat (map (map f) gt_labels) = map f ?xs"
    "concat (map (map g) pred_labels) = map g ?ys"
    by (simp_all add: map_concat)
  have ne: "?xs \<noteq> []" and len: "length ?xs = length ?ys" using True by simp_all
  have ne': "concat (map (map f) gt_labels) \<noteq> []"
    and len': "length (concat (map (map f) gt_labels)) = length (concat (map (map g) pred_labels))"
    unfolding c using ne len by simp_all
  obtain tp where tp: "evaluate_counts solver gt_labels pred_labels th =
      Inr (int tp, int (card (set ?ys - {0})) - int tp, int (card (set ?xs - {0})) - int tp)"
    "is_max_matching_size (label_pairs ?xs ?ys (float32 th)) tp"
    using evaluate_counts_char[OF assms(1) ne len, of th] by blast
  obtain tp' where tp': "evaluate_counts solver (map (map f) gt_labels) (map (map g) pred_labels) th =
      Inr (int tp', int (card (set (map g ?ys) - {0})) - int tp',
           int (card (set (map f ?xs) - {0})) - int tp')"
    "is_max_matching_size (label_pairs (map f ?xs) (map g ?ys) (float32 th)) tp'"
    using evaluate_counts_char[OF assms(1) ne' len', of th] unfolding c by blast
  have sub: "label_pairs ?xs ?ys (float32 th) \<subseteq> insert 0 (set ?xs) \<times> insert 0 (set ?ys)"
    by (auto simp: label_pairs_def)
  have "is_max_matching_size (label_pairs ?xs ?ys (float32 th)) tp'"
    using tp'(2) unfolding label_pairs_map[OF assms(2-5)]
    by (simp only: max_matching_image[OF assms(3,5) sub])
  then have "tp' = tp" using tp(2) is_max_matching_size_unique by blast
  then have "evaluate_counts solver (map (map f) gt_labels) (map (map g) pred_labels) th =
      evaluate_counts solver gt_labels pred_labels th"
    using tp(1) tp'(1) card_labels_map[OF assms(2,3)] card_labels_map[OF assms(4,5)] by simp
  then show ?thesis by (simp add: evaluate_with_def)
qed

theorem relabel_invariance_witness:
  "evaluate [[7, 7, 0], [0, 3, 3], [0, 3, 3]] [[4, 4, 0], [0, 0, 9], [0, 9, 9]] (1/2) =
   evaluate [[1, 1, 0], [0, 2, 2], [0, 2, 2]] [[1, 1, 0], [0, 0, 2], [0, 2, 2]] (1/2)"
proof -
  let ?f = "\<lambda>v::nat. if v = 1 then 7 else if v = 2 then 3 else v"
  let ?g = "\<lambda>v::nat. if v = 1 then 4 else if v = 2 then 9 else v"
  have h1: "?f 0 = 0" and h3: "?g 0 = 0" by simp_all
  have h2: "inj_on ?f (insert 0 (set (concat [[1, 1, 0], [0, 2, 2], [0, 2, 2]])))"
    by simp
  have h4: "inj_on ?g (insert 0 (set (concat [[1, 1, 0], [0, 0, 2], [0, 2, 2]])))"
    by simp
  show ?thesis
    unfolding evaluate_def
    using relabel_invariance[OF linear_sum_assignment_contract h1 h2 h3 h4, of "1/2"]
    by simp
qed

text \<open>
  C6 (the code departs from it). For a 2 by 2 image and the offset (3, 0), every pixel
  has its partner out of bounds, so the plane should be all zero; the code raises
  ValueError instead, because the stop bound 2 - 3 = -1 of the row slice counts from the
  end and selects one row, which cannot be assigned the empty comparison result.
\<close>

theorem large_offset_raises:
  "compute_affinities [[1, 1], [1, 1]] [(3, 0)] = Inl ValueError"
  by code_simp

lemma py_slice_in_range:
  "0 \<le> lo \<Longrightarrow> lo \<le> int n \<Longrightarrow> 0 \<le> hi \<Longrightarrow> hi \<le> int n \<Longrightarrow> py_slice n lo hi = [nat lo ..< nat hi]"
  by (simp add: py_slice_def py_slice_bound_def min_def)

lemma bc_index_upt: "k < hi - lo \<Longrightarrow> bc_index [lo..<hi] k = lo + k"
  by (auto simp: bc_index_def)

lemma upt_offset_index:
  fixes a0 a1 y :: nat
  assumes "a0 \<le> y" "y < a1"
  shows "(if length [a0..<a1] = 1 then 0 else y - hd [a0..<a1]) = y - a0"
proof -
  have "hd [a0..<a1] = a0" by (rule hd_upt) (use assms in linarith)
  moreover have "length [a0..<a1] = 1 \<Longrightarrow> y - a0 = 0" using assms by simp
  ultimately show ?thesis by presburger
qed

lemma axis_slices:
  fixes d :: int and n :: nat
  assumes "\<bar>d\<bar> \<le> int n"
  defines "A \<equiv> py_slice n (max 0 (- d)) (min (int n) (int n - d))"
    and "B \<equiv> py_slice n (max 0 d) (min (int n) (int n + d))"
  shows "length A = length B"
    and "y < n \<Longrightarrow> y \<in> set A \<longleftrightarrow> 0 \<le> int y + d \<and> int y + d < int n"
    and "y \<in> set A \<Longrightarrow> bc_index A (if length A = 1 then 0 else y - hd A) = y"
    and "y \<in> set A \<Longrightarrow> int (bc_index B (if length A = 1 then 0 else y - hd A)) = int y + d"
proof -
  define a0 a1 b0 b1 where "a0 = nat (max 0 (- d))" and "a1 = nat (min (int n) (int n - d))"
    and "b0 = nat (max 0 d)" and "b1 = nat (min (int n) (int n + d))"
  have A: "A = [a0..<a1]" unfolding A_def a0_def a1_def
    by (rule py_slice_in_range) (use assms(1) in auto)
  have B: "B = [b0..<b1]" unfolding B_def b0_def b1_def
    by (rule py_slice_in_range) (use assms(1) in auto)
  have rel: "int b0 = int a0 + d" "int b1 = int a1 + d" "a1 \<le> n" "b1 \<le> n"
    "int a0 = max 0 (- d)" "int a1 = min (int n) (int n - d)"
    unfolding a0_def a1_def b0_def b1_def using assms(1) by linarith+
  show len: "length A = length B" unfolding A B using rel(1,2) by (simp only: length_upt)
  show "y < n \<Longrightarrow> y \<in> set A \<longleftrightarrow> 0 \<le> int y + d \<and> int y + d < int n"
    unfolding A using rel(5,6) by (simp only: set_upt atLeastLessThan_iff) linarith
  assume y: "y \<in> set A"
  then have yr: "a0 \<le> y" "y < a1" unfolding A by auto
  have k: "(if length A = 1 then 0 else y - hd A) = y - a0"
    unfolding A by (rule upt_offset_index[OF yr])
  have "bc_index A (y - a0) = a0 + (y - a0)"
    unfolding A by (rule bc_index_upt) (use yr in linarith)
  then show "bc_index A (if length A = 1 then 0 else y - hd A) = y"
    unfolding k using yr by simp
  have "bc_index B (y - a0) = b0 + (y - a0)"
    unfolding B by (rule bc_index_upt) (use yr rel(1,2) in linarith)
  then show "int (bc_index B (if length A = 1 then 0 else y - hd A)) = int y + d"
    unfolding k using yr rel(1) by simp
qed

lemma np_broadcast_same: "np_broadcast a a = Inr a"
  by (simp add: np_broadcast_def)

lemma affinity_plane_in_range:
  assumes "\<bar>d0\<bar> \<le> int (fst (np_shape seg))" "\<bar>d1\<bar> \<le> int (snd (np_shape seg))"
  shows "affinity_plane seg (d0, d1) =
     Inr (map (\<lambda>y. map (\<lambda>x.
            if 0 \<le> int y + d0 \<and> int y + d0 < int (fst (np_shape seg)) \<and>
               0 \<le> int x + d1 \<and> int x + d1 < int (snd (np_shape seg)) \<and>
               seg ! y ! x = seg ! nat (int y + d0) ! nat (int x + d1) \<and> seg ! y ! x > 0
            then 1 else 0) [0..<snd (np_shape seg)]) [0..<fst (np_shape seg)])"
proof -
  define H W where "H = fst (np_shape seg)" and "W = snd (np_shape seg)"
  define rA cA rB cB where "rA = py_slice H (max 0 (- d0)) (min (int H) (int H - d0))"
    and "cA = py_slice W (max 0 (- d1)) (min (int W) (int W - d1))"
    and "rB = py_slice H (max 0 d0) (min (int H) (int H + d0))"
    and "cB = py_slice W (max 0 d1) (min (int W) (int W + d1))"
  have d: "\<bar>d0\<bar> \<le> int H" "\<bar>d1\<bar> \<le> int W" using assms by (simp_all add: H_def W_def)
  note r = axis_slices[OF d(1), folded rA_def rB_def]
  note c = axis_slices[OF d(2), folded cA_def cB_def]
  have cell: "(if y \<in> set rA \<and> x \<in> set cA
          then (let i = (if length rA = 1 then 0 else y - hd rA);
                    j = (if length cA = 1 then 0 else x - hd cA);
                    a = seg ! bc_index rA i ! bc_index cA j;
                    b = seg ! bc_index rB i ! bc_index cB j
                in if a = b \<and> a > 0 \<and> b > 0 then 1 else 0)
          else 0) =
        (if 0 \<le> int y + d0 \<and> int y + d0 < int H \<and> 0 \<le> int x + d1 \<and> int x + d1 < int W \<and>
               seg ! y ! x = seg ! nat (int y + d0) ! nat (int x + d1) \<and> seg ! y ! x > 0
            then 1 else (0::nat))" if yx: "y < H" "x < W" for y x
  proof (cases "y \<in> set rA \<and> x \<in> set cA")
    case False
    then show ?thesis using r(2)[OF yx(1)] c(2)[OF yx(2)] by auto
  next
    case True
    then have y: "y \<in> set rA" and x: "x \<in> set cA" by blast+
    have in_range: "0 \<le> int y + d0 \<and> int y + d0 < int H" "0 \<le> int x + d1 \<and> int x + d1 < int W"
      using r(2)[OF yx(1)] c(2)[OF yx(2)] y x by blast+
    have ia: "bc_index rA (if length rA = 1 then 0 else y - hd rA) = y"
      "bc_index cA (if length cA = 1 then 0 else x - hd cA) = x"
      using r(3)[OF y] c(3)[OF x] by blast+
    have ib: "bc_index rB (if length rA = 1 then 0 else y - hd rA) = nat (int y + d0)"
      "bc_index cB (if length cA = 1 then 0 else x - hd cA) = nat (int x + d1)"
      using r(4)[OF y] c(4)[OF x] by linarith+
    show ?thesis using True in_range by (simp only: Let_def ia ib) auto
  qed
  have "affinity_plane seg (d0, d1) =
      Inr (map (\<lambda>y. map (\<lambda>x.
             if y \<in> set rA \<and> x \<in> set cA
             then (let i = (if length rA = 1 then 0 else y - hd rA);
                    j = (if length cA = 1 then 0 else x - hd cA);
                    a = seg ! bc_index rA i ! bc_index cA j;
                    b = seg ! bc_index rB i ! bc_index cB j
                in if a = b \<and> a > 0 \<and> b > 0 then 1 else 0)
             else 0) [0..<W]) [0..<H])"
    unfolding affinity_plane_def Let_def H_def[symmetric] W_def[symmetric] fst_conv snd_conv
      rA_def[symmetric] cA_def[symmetric] rB_def[symmetric] cB_def[symmetric]
      r(1)[symmetric] c(1)[symmetric] np_broadcast_same bind_e_def
    by (simp add: Let_def)
  also have "\<dots> = Inr (map (\<lambda>y. map (\<lambda>x.
            if 0 \<le> int y + d0 \<and> int y + d0 < int H \<and> 0 \<le> int x + d1 \<and> int x + d1 < int W \<and>
               seg ! y ! x = seg ! nat (int y + d0) ! nat (int x + d1) \<and> seg ! y ! x > 0
            then 1 else 0) [0..<W]) [0..<H])"
    using cell by (auto intro!: map_cong)
  finally show ?thesis unfolding H_def W_def .
qed

lemma map_e_all_Inr: "\<forall>x \<in> set xs. f x = Inr (g x) \<Longrightarrow> map_e f xs = Inr (map g xs)"
  by (induction xs) (simp_all add: bind_e_def)

lemma compute_affinities_in_range:
  assumes "nhood \<noteq> []"
    and "\<forall>off \<in> set nhood. \<bar>fst off\<bar> \<le> int (fst (np_shape seg)) \<and> \<bar>snd off\<bar> \<le> int (snd (np_shape seg))"
  shows "compute_affinities seg nhood =
     Inr (map (\<lambda>off. map (\<lambda>y. map (\<lambda>x. affinity_spec seg off y x)
            [0..<snd (np_shape seg)]) [0..<fst (np_shape seg)]) nhood)"
proof -
  have "\<forall>off \<in> set nhood. affinity_plane seg off =
      Inr (map (\<lambda>y. map (\<lambda>x. affinity_spec seg off y x)
            [0..<snd (np_shape seg)]) [0..<fst (np_shape seg)])"
  proof
    fix off assume "off \<in> set nhood"
    then have "\<bar>fst off\<bar> \<le> int (fst (np_shape seg))" "\<bar>snd off\<bar> \<le> int (snd (np_shape seg))"
      using assms(2) by blast+
    from affinity_plane_in_range[OF this] show "affinity_plane seg off =
      Inr (map (\<lambda>y. map (\<lambda>x. affinity_spec seg off y x)
            [0..<snd (np_shape seg)]) [0..<fst (np_shape seg)])"
      by (simp add: affinity_spec_def)
  qed
  from map_e_all_Inr[OF this] show ?thesis using assms(1) by (simp add: compute_affinities_def)
qed

lemma compute_affinities_empty_neighbourhood: "compute_affinities seg [] = Inl IndexError"
  by (simp add: compute_affinities_def)

end
